theory Spec2Isabelle
  imports Main "HOL-Library.Word" "HOL-Library.Signed_Division"
begin

unbundle bit_operations_syntax

section \<open>The frame pipe sink of scrcpy (\<^verbatim>\<open>app/src/frame_pipe_sink.c\<close>)\<close>

text \<open>
  The sink serialises decoded YUV420P frames to a named pipe. The embedding below follows
  \<^verbatim>\<open>frame_pipe_sink.c\<close> function by function. C's \<^verbatim>\<open>int\<close> is a 32-bit word read
  with \<open>sint\<close>, \<^verbatim>\<open>size_t\<close>, \<^verbatim>\<open>ssize_t\<close> and \<^verbatim>\<open>int64_t\<close> are 64-bit words, a byte
  is an 8-bit word. Memory the code reads or writes through a pointer is a byte list, and
  an access outside it, like a signed overflow, is undefined behaviour in C: the model
  returns \<open>None\<close> there. Logging is left out; it has no effect on the sink or the pipe.
\<close>

subsection \<open>Machine types\<close>

type_synonym byte = "8 word"
type_synonym c_int = "32 word"
type_synonym size_t = "64 word"
type_synonym ssize_t = "64 word"
type_synonym int64_t = "64 word"

text \<open>The range of a C \<^verbatim>\<open>int\<close>: a product outside it is a signed overflow.\<close>

definition in_int_range :: "int \<Rightarrow> bool" where
  "in_int_range i = (- (2 ^ 31) \<le> i \<and> i < 2 ^ 31)"

text \<open>
  C's \<^verbatim>\<open>/\<close> on \<^verbatim>\<open>int\<close> truncates towards zero, as \<open>sdiv\<close> does. The only divisor in
  the program is 2, so neither a division by zero nor an overflow can happen.
\<close>

definition int_div :: "c_int \<Rightarrow> c_int \<Rightarrow> c_int" where
  "int_div a b = word_of_int (sint a sdiv sint b)"

subsection \<open>The data of the program\<close>

record AVRational =
  num :: c_int
  den :: c_int

text \<open>
  A pointer into the caller's memory: the block it points into and its position there.
  (FFmpeg allows a negative \<^verbatim>\<open>linesize\<close>, with the plane pointer at the last row of its
  block, so a pointer is not always at the start of its block.)
\<close>

type_synonym pointer = "byte list \<times> nat"

text \<open>
  The fields of FFmpeg's \<^verbatim>\<open>AVFrame\<close> that the sink reads; \<open>data i\<close> and \<open>linesize i\<close>
  are \<^verbatim>\<open>data[i]\<close> and \<^verbatim>\<open>linesize[i]\<close>.
\<close>

record AVFrame =
  width :: c_int
  height :: c_int
  linesize :: "nat \<Rightarrow> c_int"
  data :: "nat \<Rightarrow> pointer"
  pts :: int64_t

text \<open>FFmpeg's \<^verbatim>\<open>AV_NOPTS_VALUE\<close>, \<^verbatim>\<open>((int64_t)UINT64_C(0x8000000000000000))\<close>.\<close>

definition AV_NOPTS_VALUE :: int64_t where
  "AV_NOPTS_VALUE = 0x8000000000000000"

text \<open>
  \<^verbatim>\<open>struct sc_frame_pipe_sink\<close>. \<open>frame_buf\<close> is \<open>None\<close> for a null pointer and otherwise
  the block it points to. The trait's table of operations is not state and is left out.
\<close>

record sc_frame_pipe_sink =
  pipe_path :: string
  fd :: c_int
  stopped :: bool
  width :: c_int
  height :: c_int
  time_base :: AVRational
  frame_buf :: "byte list option"
  frame_buf_size :: size_t

subsection \<open>The operating system\<close>

text \<open>
  Every system call the sink issues is recorded with its arguments and its return value.
  \<open>pipe\<close> holds the bytes the pipe has accepted. What the kernel answers is not the
  program's choice: \<open>write_results\<close> lists the outcomes of the coming \<^verbatim>\<open>write\<close> and
  \<^verbatim>\<open>writev\<close> calls and \<open>malloc_results\<close> those of the coming \<^verbatim>\<open>malloc\<close> calls (\<open>None\<close>:
  out of memory; \<open>Some junk\<close>: a block whose indeterminate content is \<open>junk\<close>, cut or
  filled up to the size asked for). When a list is used up, the call succeeds in full.
\<close>

datatype wres = Complete | Partial nat | Error

datatype syscall =
    Write c_int "byte list" ssize_t
  | Writev c_int "byte list list" ssize_t
  | Unlink string
  | Mkfifo string c_int
  | Open string c_int
  | Close c_int

record world =
  calls :: "syscall list"
  pipe :: "byte list"
  write_results :: "wres list"
  malloc_results :: "byte list option list"

definition next_wres :: "world \<Rightarrow> wres" where
  "next_wres w = (case write_results w of [] \<Rightarrow> Complete | r # _ \<Rightarrow> r)"

text \<open>How many of \<open>n\<close> offered bytes the pipe takes, and what the call returns.\<close>

fun accepted :: "wres \<Rightarrow> nat \<Rightarrow> nat" where
  "accepted Complete n = n"
| "accepted (Partial k) n = min k n"
| "accepted Error n = 0"

fun returned :: "wres \<Rightarrow> nat \<Rightarrow> ssize_t" where
  "returned Complete n = of_nat n"
| "returned (Partial k) n = of_nat (min k n)"
| "returned Error n = - 1"

definition sys_write :: "world \<Rightarrow> c_int \<Rightarrow> byte list \<Rightarrow> world \<times> ssize_t" where
  "sys_write w d buf =
     (let r = next_wres w; ret = returned r (length buf) in
      (w\<lparr>calls := calls w @ [Write d buf ret],
         pipe := pipe w @ take (accepted r (length buf)) buf,
         write_results := tl (write_results w)\<rparr>, ret))"

definition sys_writev :: "world \<Rightarrow> c_int \<Rightarrow> byte list list \<Rightarrow> world \<times> ssize_t" where
  "sys_writev w d iov =
     (let r = next_wres w; ret = returned r (length (concat iov)) in
      (w\<lparr>calls := calls w @ [Writev d iov ret],
         pipe := pipe w @ take (accepted r (length (concat iov))) (concat iov),
         write_results := tl (write_results w)\<rparr>, ret))"

definition sys_malloc :: "world \<Rightarrow> size_t \<Rightarrow> world \<times> byte list option" where
  "sys_malloc w n =
     (case malloc_results w of
        [] \<Rightarrow> (w, Some (replicate (unat n) 0))
      | None # rs \<Rightarrow> (w\<lparr>malloc_results := rs\<rparr>, None)
      | Some junk # rs \<Rightarrow>
          (w\<lparr>malloc_results := rs\<rparr>, Some (take (unat n) (junk @ replicate (unat n) 0))))"

subsection \<open>\<^verbatim>\<open>write_header\<close>\<close>

text \<open>The array \<^verbatim>\<open>header[12]\<close> as lines 21 to 35 fill it.\<close>

definition header_bytes :: "c_int \<Rightarrow> c_int \<Rightarrow> byte list" where
  "header_bytes width' height' =
     [0x59, 0x55, 0x56, 0x34,
      ucast (width' AND 0xFF),
      ucast (signed_drop_bit 8 width' AND 0xFF),
      ucast (signed_drop_bit 16 width' AND 0xFF),
      ucast (signed_drop_bit 24 width' AND 0xFF),
      ucast (height' AND 0xFF),
      ucast (signed_drop_bit 8 height' AND 0xFF),
      ucast (signed_drop_bit 16 height' AND 0xFF),
      ucast (signed_drop_bit 24 height' AND 0xFF)]"

definition write_header ::
  "world \<Rightarrow> sc_frame_pipe_sink \<Rightarrow> c_int \<Rightarrow> c_int \<Rightarrow> world \<times> sc_frame_pipe_sink \<times> bool" where
  "write_header w fps width' height' =
     (let (w', ret) = sys_write w (fd fps) (header_bytes width' height') in
      if ret \<noteq> 12 then (w', fps, False)
      else (w', fps\<lparr>width := width', height := height'\<rparr>, True))"

subsection \<open>\<^verbatim>\<open>write_pts\<close>\<close>

text \<open>The array \<^verbatim>\<open>buf[8]\<close> as lines 52 to 60 fill it.\<close>

definition pts_bytes :: "int64_t \<Rightarrow> byte list" where
  "pts_bytes pts_us =
     [ucast (pts_us AND 0xFF),
      ucast (signed_drop_bit 8 pts_us AND 0xFF),
      ucast (signed_drop_bit 16 pts_us AND 0xFF),
      ucast (signed_drop_bit 24 pts_us AND 0xFF),
      ucast (signed_drop_bit 32 pts_us AND 0xFF),
      ucast (signed_drop_bit 40 pts_us AND 0xFF),
      ucast (signed_drop_bit 48 pts_us AND 0xFF),
      ucast (signed_drop_bit 56 pts_us AND 0xFF)]"

definition write_pts ::
  "world \<Rightarrow> sc_frame_pipe_sink \<Rightarrow> int64_t \<Rightarrow> world \<times> bool" where
  "write_pts w fps pts_us =
     (let (w', ret) = sys_write w (fd fps) (pts_bytes pts_us) in
      if ret \<noteq> 8 then (w', False) else (w', True))"

subsection \<open>The reader's side of the wire format\<close>

text \<open>
  The reader is not part of the repository; the header of \<^verbatim>\<open>frame_pipe_sink.h\<close> describes
  what it does: it reads 4 bytes, and if they are the magic it reads 8 more bytes for the
  width and the height, all integers little-endian.
\<close>

definition magic :: "byte list" where
  "magic = [0x59, 0x55, 0x56, 0x34]"

definition le_decode32 :: "byte list \<Rightarrow> c_int" where
  "le_decode32 bs = foldr (\<lambda>b acc. ucast b OR push_bit 8 acc) (take 4 bs) 0"

definition le_decode64 :: "byte list \<Rightarrow> int64_t" where
  "le_decode64 bs = foldr (\<lambda>b acc. ucast b OR push_bit 8 acc) (take 8 bs) 0"

definition decode_header :: "byte list \<Rightarrow> (c_int \<times> c_int) option" where
  "decode_header bs =
     (if length bs = 12 \<and> take 4 bs = magic
      then Some (le_decode32 (drop 4 bs), le_decode32 (drop 8 bs))
      else None)"

subsection \<open>Memory accesses\<close>

text \<open>
  \<open>load p off n\<close> reads \<open>n\<close> bytes at \<open>p + off\<close>, \<open>store buf dst bs\<close> writes \<open>bs\<close> into
  the block \<open>buf\<close> at position \<open>dst\<close>, and \<open>memcpy\<close> is the two together. An access that
  leaves its block is undefined behaviour.
\<close>

definition load :: "pointer \<Rightarrow> int \<Rightarrow> nat \<Rightarrow> byte list option" where
  "load p off n =
     (let i = int (snd p) + off in
      if 0 \<le> i \<and> nat i + n \<le> length (fst p) then Some (take n (drop (nat i) (fst p)))
      else None)"

definition store :: "byte list \<Rightarrow> nat \<Rightarrow> byte list \<Rightarrow> byte list option" where
  "store buf dst bs =
     (if dst + length bs \<le> length buf
      then Some (take dst buf @ bs @ drop (dst + length bs) buf)
      else None)"

definition memcpy :: "byte list \<Rightarrow> nat \<Rightarrow> pointer \<Rightarrow> int \<Rightarrow> nat \<Rightarrow> byte list option" where
  "memcpy buf dst src off n =
     (case load src off n of None \<Rightarrow> None | Some bs \<Rightarrow> store buf dst bs)"

subsection \<open>\<^verbatim>\<open>write_frame_data\<close>\<close>

text \<open>The locals of lines 76 to 90.\<close>

definition uv_width :: "AVFrame \<Rightarrow> c_int" where
  "uv_width frame = int_div (AVFrame.width frame) 2"

definition uv_height :: "AVFrame \<Rightarrow> c_int" where
  "uv_height frame = int_div (AVFrame.height frame) 2"

definition y_size :: "AVFrame \<Rightarrow> size_t" where
  "y_size frame = scast (AVFrame.width frame) * scast (AVFrame.height frame)"

definition uv_size :: "AVFrame \<Rightarrow> size_t" where
  "uv_size frame = scast (uv_width frame) * scast (uv_height frame)"

definition frame_size :: "AVFrame \<Rightarrow> size_t" where
  "frame_size frame = y_size frame + uv_size frame * 2"

definition can_write_direct :: "AVFrame \<Rightarrow> bool" where
  "can_write_direct frame =
     (linesize frame 0 = AVFrame.width frame \<and>
      linesize frame 1 = uv_width frame \<and>
      linesize frame 2 = uv_width frame)"

text \<open>
  One of the three copy loops (lines 130 to 143): rows \<open>y\<close>, \<open>y + 1\<close>, ... below \<open>rows\<close>
  of the plane at \<open>src\<close> are copied to position \<open>dst\<close> of the block \<open>buf\<close>. The loops'
  \<^verbatim>\<open>int y\<close> stays below \<open>rows\<close> and cannot overflow; the product \<^verbatim>\<open>y * linesize\<close> can,
  and \<^verbatim>\<open>memcpy\<close> takes its length as a \<^verbatim>\<open>size_t\<close>, which for a negative \<^verbatim>\<open>int\<close> is more
  than any block holds. The result is the block and the final \<^verbatim>\<open>dst\<close>.
\<close>

function copy_plane ::
  "byte list \<Rightarrow> nat \<Rightarrow> pointer \<Rightarrow> c_int \<Rightarrow> c_int \<Rightarrow> c_int \<Rightarrow> int \<Rightarrow> (byte list \<times> nat) option" where
  "copy_plane buf dst src stride row_width rows y =
     (if y < sint rows then
        if sint row_width < 0 \<or> \<not> in_int_range (y * sint stride) then None
        else
          (case memcpy buf dst src (y * sint stride) (nat (sint row_width)) of
             None \<Rightarrow> None
           | Some buf' \<Rightarrow>
               copy_plane buf' (dst + nat (sint row_width)) src stride row_width rows (y + 1))
      else Some (buf, dst))"
  by pat_completeness auto
termination
  by (relation "measure (\<lambda>(buf, dst, src, stride, row_width, rows, y). nat (sint rows - y))") auto

declare copy_plane.simps [simp del]

text \<open>The fast path, lines 93 to 112: one \<^verbatim>\<open>writev\<close> of the three planes.\<close>

definition write_direct ::
  "world \<Rightarrow> sc_frame_pipe_sink \<Rightarrow> AVFrame \<Rightarrow> (world \<times> sc_frame_pipe_sink \<times> bool) option" where
  "write_direct w fps frame =
     (case load (data frame 0) 0 (unat (y_size frame)) of None \<Rightarrow> None | Some iov0 \<Rightarrow>
      case load (data frame 1) 0 (unat (uv_size frame)) of None \<Rightarrow> None | Some iov1 \<Rightarrow>
      case load (data frame 2) 0 (unat (uv_size frame)) of None \<Rightarrow> None | Some iov2 \<Rightarrow>
        (let (w', written) = sys_writev w (fd fps) [iov0, iov1, iov2] in
         if written \<noteq> frame_size frame then Some (w', fps, False)
         else Some (w', fps, True)))"

text \<open>
  Lines 117 to 125: the scratch buffer is kept when it is there and large enough, and
  replaced by a new block otherwise.
\<close>

definition ensure_frame_buf ::
  "world \<Rightarrow> sc_frame_pipe_sink \<Rightarrow> AVFrame \<Rightarrow> world \<times> sc_frame_pipe_sink \<times> bool" where
  "ensure_frame_buf w fps frame =
     (if frame_buf fps = None \<or> frame_buf_size fps < frame_size frame then
        (let (w', blk) = sys_malloc w (frame_size frame) in
         case blk of
           None \<Rightarrow> (w', fps\<lparr>frame_buf := None\<rparr>, False)
         | Some b \<Rightarrow> (w', fps\<lparr>frame_buf := Some b, frame_buf_size := frame_size frame\<rparr>, True))
      else (w, fps, True))"

text \<open>The slow path, lines 115 to 157: three copy loops and one \<^verbatim>\<open>write\<close>.\<close>

definition write_copy ::
  "world \<Rightarrow> sc_frame_pipe_sink \<Rightarrow> AVFrame \<Rightarrow> (world \<times> sc_frame_pipe_sink \<times> bool) option" where
  "write_copy w fps frame =
     (let (w1, fps1, allocated) = ensure_frame_buf w fps frame in
      if \<not> allocated then Some (w1, fps1, False)
      else
        case frame_buf fps1 of None \<Rightarrow> None | Some buf0 \<Rightarrow>
        case copy_plane buf0 0 (data frame 0) (linesize frame 0)
               (AVFrame.width frame) (AVFrame.height frame) 0 of None \<Rightarrow> None | Some (buf1, dst1) \<Rightarrow>
        case copy_plane buf1 dst1 (data frame 1) (linesize frame 1)
               (uv_width frame) (uv_height frame) 0 of None \<Rightarrow> None | Some (buf2, dst2) \<Rightarrow>
        case copy_plane buf2 dst2 (data frame 2) (linesize frame 2)
               (uv_width frame) (uv_height frame) 0 of None \<Rightarrow> None | Some (buf3, dst3) \<Rightarrow>
          if length buf3 < unat (frame_size frame) then None
          else
            (let fps2 = fps1\<lparr>frame_buf := Some buf3\<rparr>;
                 (w2, written) = sys_write w1 (fd fps2) (take (unat (frame_size frame)) buf3) in
             if written \<noteq> frame_size frame then Some (w2, fps2, False)
             else Some (w2, fps2, True)))"

definition write_frame_data ::
  "world \<Rightarrow> sc_frame_pipe_sink \<Rightarrow> AVFrame \<Rightarrow> (world \<times> sc_frame_pipe_sink \<times> bool) option" where
  "write_frame_data w fps frame =
     (if can_write_direct frame then write_direct w fps frame else write_copy w fps frame)"

subsection \<open>\<^verbatim>\<open>sc_frame_pipe_sink_open\<close> and \<^verbatim>\<open>sc_frame_pipe_sink_close\<close>\<close>

text \<open>
  What \<^verbatim>\<open>mkfifo\<close> and \<^verbatim>\<open>open\<close> return is the operating system's answer and a parameter
  here. The only field of the codec context that is read is its time base.
\<close>

definition sc_frame_pipe_sink_open ::
  "c_int \<Rightarrow> c_int \<Rightarrow> world \<Rightarrow> sc_frame_pipe_sink \<Rightarrow> AVRational \<Rightarrow>
     world \<times> sc_frame_pipe_sink \<times> bool" where
  "sc_frame_pipe_sink_open mkfifo_ret open_ret w fps ctx_time_base =
     (let fps1 = fps\<lparr>time_base := ctx_time_base\<rparr>;
          w1 = w\<lparr>calls := calls w @ [Unlink (pipe_path fps1), Mkfifo (pipe_path fps1) mkfifo_ret]\<rparr>
      in
      if sint mkfifo_ret < 0 then (w1, fps1, False)
      else
        (let w2 = w1\<lparr>calls := calls w1 @ [Open (pipe_path fps1) open_ret]\<rparr>;
             fps2 = fps1\<lparr>fd := open_ret\<rparr>
         in
         if sint (fd fps2) < 0
         then (w2\<lparr>calls := calls w2 @ [Unlink (pipe_path fps2)]\<rparr>, fps2, False)
         else (w2, fps2\<lparr>width := 0, height := 0, stopped := False\<rparr>, True)))"

definition sc_frame_pipe_sink_close ::
  "world \<Rightarrow> sc_frame_pipe_sink \<Rightarrow> world \<times> sc_frame_pipe_sink" where
  "sc_frame_pipe_sink_close w fps =
     (let (w1, fps1) =
            (if 0 \<le> sint (fd fps)
             then (w\<lparr>calls := calls w @ [Close (fd fps)]\<rparr>, fps\<lparr>fd := - 1\<rparr>)
             else (w, fps))
      in (w1\<lparr>calls := calls w1 @ [Unlink (pipe_path fps1)]\<rparr>, fps1))"

subsection \<open>\<^verbatim>\<open>sc_frame_pipe_sink_push\<close>\<close>

text \<open>
  \<^verbatim>\<open>av_rescale_q\<close> is FFmpeg's and a parameter here: no property below depends on what it
  computes.
\<close>

text \<open>The local \<^verbatim>\<open>pts_us\<close> of lines 223 to 227.\<close>

definition frame_pts_us ::
  "(int64_t \<Rightarrow> AVRational \<Rightarrow> AVRational \<Rightarrow> int64_t) \<Rightarrow> AVRational \<Rightarrow> AVFrame \<Rightarrow> int64_t" where
  "frame_pts_us av_rescale_q tb frame =
     (if pts frame \<noteq> AV_NOPTS_VALUE
      then av_rescale_q (pts frame) tb \<lparr>num = 1, den = 1000000\<rparr>
      else 0)"

definition sc_frame_pipe_sink_push ::
  "(int64_t \<Rightarrow> AVRational \<Rightarrow> AVRational \<Rightarrow> int64_t) \<Rightarrow>
     world \<Rightarrow> sc_frame_pipe_sink \<Rightarrow> AVFrame \<Rightarrow> (world \<times> sc_frame_pipe_sink \<times> bool) option" where
  "sc_frame_pipe_sink_push av_rescale_q w fps frame =
     (if sint (fd fps) < 0 \<or> stopped fps then Some (w, fps, False)
      else
        (let (w1, fps1, header_ok) =
               (if AVFrame.width frame \<noteq> width fps \<or> AVFrame.height frame \<noteq> height fps
                then write_header w fps (AVFrame.width frame) (AVFrame.height frame)
                else (w, fps, True))
         in
         if \<not> header_ok then Some (w1, fps1\<lparr>stopped := True\<rparr>, False)
         else
           (let pts_us = frame_pts_us av_rescale_q (time_base fps1) frame;
                (w2, pts_ok) = write_pts w1 fps1 pts_us
            in
            if \<not> pts_ok then Some (w2, fps1\<lparr>stopped := True\<rparr>, False)
            else
              (case write_frame_data w2 fps1 frame of
                 None \<Rightarrow> None
               | Some (w3, fps3, data_ok) \<Rightarrow>
                   if \<not> data_ok then Some (w3, fps3\<lparr>stopped := True\<rparr>, False)
                   else Some (w3, fps3, True)))))"

subsection \<open>\<^verbatim>\<open>sc_frame_pipe_sink_init\<close>\<close>

text \<open>
  \<open>fps\<close> is the memory of the instance before the call; the time base is not set here.
  When \<^verbatim>\<open>strdup\<close> fails there is no instance (\<open>None\<close>).
\<close>

definition sc_frame_pipe_sink_init ::
  "bool \<Rightarrow> sc_frame_pipe_sink \<Rightarrow> string \<Rightarrow> sc_frame_pipe_sink option" where
  "sc_frame_pipe_sink_init strdup_ok fps path =
     (if \<not> strdup_ok then None
      else Some (fps\<lparr>pipe_path := path, fd := - 1, width := 0, height := 0, stopped := False,
                    frame_buf := None, frame_buf_size := 0\<rparr>))"

subsection \<open>Sequences of calls\<close>

text \<open>
  The frames of a list pushed one after the other, each on the state the one before left:
  the result is the final state and what each call returned.
\<close>

fun push_all ::
  "(int64_t \<Rightarrow> AVRational \<Rightarrow> AVRational \<Rightarrow> int64_t) \<Rightarrow>
     world \<Rightarrow> sc_frame_pipe_sink \<Rightarrow> AVFrame list \<Rightarrow>
     (world \<times> sc_frame_pipe_sink \<times> bool list) option" where
  "push_all av w fps [] = Some (w, fps, [])"
| "push_all av w fps (frame # frames) =
     (case sc_frame_pipe_sink_push av w fps frame of
        None \<Rightarrow> None
      | Some (w1, fps1, r) \<Rightarrow>
          (case push_all av w1 fps1 frames of
             None \<Rightarrow> None
           | Some (w2, fps2, rs) \<Rightarrow> Some (w2, fps2, r # rs)))"

text \<open>The same for a list of push and close calls.\<close>

datatype sink_call = Push_call AVFrame | Close_call

fun run_calls ::
  "(int64_t \<Rightarrow> AVRational \<Rightarrow> AVRational \<Rightarrow> int64_t) \<Rightarrow>
     world \<Rightarrow> sc_frame_pipe_sink \<Rightarrow> sink_call list \<Rightarrow>
     (world \<times> sc_frame_pipe_sink \<times> bool list) option" where
  "run_calls av w fps [] = Some (w, fps, [])"
| "run_calls av w fps (Push_call frame # cs) =
     (case sc_frame_pipe_sink_push av w fps frame of
        None \<Rightarrow> None
      | Some (w1, fps1, r) \<Rightarrow>
          (case run_calls av w1 fps1 cs of
             None \<Rightarrow> None
           | Some (w2, fps2, rs) \<Rightarrow> Some (w2, fps2, r # rs)))"
| "run_calls av w fps (Close_call # cs) =
     (case sc_frame_pipe_sink_close w fps of (w1, fps1) \<Rightarrow> run_calls av w1 fps1 cs)"

fun is_push :: "sink_call \<Rightarrow> bool" where
  "is_push (Push_call frame) = True"
| "is_push Close_call = False"

text \<open>
  The system calls that write to the pipe, and those of them that the program takes for
  failed: the return value is not the number of bytes offered.
\<close>

fun is_write :: "syscall \<Rightarrow> bool" where
  "is_write (Write d buf ret) = True"
| "is_write (Writev d iov ret) = True"
| "is_write c = False"

fun failed_write :: "syscall \<Rightarrow> bool" where
  "failed_write (Write d buf ret) = (ret \<noteq> of_nat (length buf))"
| "failed_write (Writev d iov ret) = (ret \<noteq> of_nat (length (concat iov)))"
| "failed_write c = False"

text \<open>The system calls issued between two states of the world.\<close>

definition new_calls :: "world \<Rightarrow> world \<Rightarrow> syscall list" where
  "new_calls w w' = drop (length (calls w)) (calls w')"

subsection \<open>The frame packet as the protocol describes it\<close>

text \<open>
  Row \<open>i\<close> of a plane: \<open>n\<close> bytes, \<open>i\<close> strides after the plane pointer. The payload of a
  frame packet is the rows of the Y plane, then those of the U plane, then those of the V
  plane, each row cut to its logical width.
\<close>

definition plane_row :: "pointer \<Rightarrow> int \<Rightarrow> nat \<Rightarrow> nat \<Rightarrow> byte list" where
  "plane_row p stride n i = take n (drop (nat (int (snd p) + int i * stride)) (fst p))"

definition plane_rows :: "pointer \<Rightarrow> int \<Rightarrow> nat \<Rightarrow> nat \<Rightarrow> byte list" where
  "plane_rows p stride n rows = concat (map (plane_row p stride n) [0..<rows])"

definition payload :: "AVFrame \<Rightarrow> byte list" where
  "payload frame =
     (let w = nat (sint (AVFrame.width frame)); h = nat (sint (AVFrame.height frame)) in
      plane_rows (data frame 0) (sint (linesize frame 0)) w h @
      plane_rows (data frame 1) (sint (linesize frame 1)) (w div 2) (h div 2) @
      plane_rows (data frame 2) (sint (linesize frame 2)) (w div 2) (h div 2))"

text \<open>
  The stream a reader expects for a list of frames: a dimension packet before a frame
  packet exactly when the frame's dimensions are not the last ones sent.
\<close>

fun expected_stream ::
  "(int64_t \<Rightarrow> AVRational \<Rightarrow> AVRational \<Rightarrow> int64_t) \<Rightarrow> AVRational \<Rightarrow>
     c_int \<times> c_int \<Rightarrow> AVFrame list \<Rightarrow> byte list" where
  "expected_stream av tb last_dims [] = []"
| "expected_stream av tb last_dims (frame # frames) =
     (if (AVFrame.width frame, AVFrame.height frame) \<noteq> last_dims
      then header_bytes (AVFrame.width frame) (AVFrame.height frame) else []) @
     pts_bytes (frame_pts_us av tb frame) @ payload frame @
     expected_stream av tb (AVFrame.width frame, AVFrame.height frame) frames"

subsection \<open>The scratch buffer\<close>

text \<open>
  What \<^verbatim>\<open>sc_frame_pipe_sink_init\<close> sets up and every push keeps: the recorded capacity is
  the size of the block \<open>frame_buf\<close> points to, and it is 0 when there is no block,
  unless an allocation has failed, which stops the sink.
\<close>

definition frame_buf_inv :: "sc_frame_pipe_sink \<Rightarrow> bool" where
  "frame_buf_inv fps =
     (case frame_buf fps of
        None \<Rightarrow> frame_buf_size fps = 0 \<or> stopped fps
      | Some b \<Rightarrow> length b = unat (frame_buf_size fps))"

subsection \<open>Frames the code can read\<close>

text \<open>
  The caller's side of the contract, under which the code has defined behaviour: the
  dimensions are not negative, every row the code reads lies inside the plane's block,
  and its offset from the plane pointer fits an \<^verbatim>\<open>int\<close>.
\<close>

definition plane_ok :: "pointer \<Rightarrow> c_int \<Rightarrow> nat \<Rightarrow> nat \<Rightarrow> bool" where
  "plane_ok p stride n rows =
     (snd p \<le> length (fst p) \<and>
      list_all (\<lambda>i. in_int_range (int i * sint stride) \<and>
                    0 \<le> int (snd p) + int i * sint stride \<and>
                    nat (int (snd p) + int i * sint stride) + n \<le> length (fst p)) [0..<rows])"

definition frame_ok :: "AVFrame \<Rightarrow> bool" where
  "frame_ok frame =
     (let w = nat (sint (AVFrame.width frame)); h = nat (sint (AVFrame.height frame)) in
      0 \<le> sint (AVFrame.width frame) \<and> 0 \<le> sint (AVFrame.height frame) \<and>
      plane_ok (data frame 0) (linesize frame 0) w h \<and>
      plane_ok (data frame 1) (linesize frame 1) (w div 2) (h div 2) \<and>
      plane_ok (data frame 2) (linesize frame 2) (w div 2) (h div 2))"

subsection \<open>Example values\<close>

text \<open>
  A quiet world, a freshly initialised and an opened sink, two frames of 2 by 2 pixels
  with the same content, one tightly packed and one with padded rows, and the same for
  4 by 2 pixels.
\<close>

definition quiet_world :: world where
  "quiet_world = \<lparr>calls = [], pipe = [], write_results = [], malloc_results = []\<rparr>"

definition blank_sink :: sc_frame_pipe_sink where
  "blank_sink =
     \<lparr>pipe_path = [], fd = 0, stopped = True, width = 7, height = 7,
      time_base = \<lparr>num = 0, den = 0\<rparr>, frame_buf = Some [1], frame_buf_size = 9\<rparr>"

definition fresh_sink :: sc_frame_pipe_sink where
  "fresh_sink =
     \<lparr>pipe_path = ''/tmp/frames'', fd = - 1, stopped = False, width = 0, height = 0,
      time_base = \<lparr>num = 0, den = 0\<rparr>, frame_buf = None, frame_buf_size = 0\<rparr>"

definition open_sink :: sc_frame_pipe_sink where
  "open_sink =
     \<lparr>pipe_path = ''/tmp/frames'', fd = 3, stopped = False, width = 0, height = 0,
      time_base = \<lparr>num = 1, den = 1\<rparr>, frame_buf = None, frame_buf_size = 0\<rparr>"

definition frame_2x2 :: AVFrame where
  "frame_2x2 =
     \<lparr>AVFrame.width = 2, AVFrame.height = 2,
      linesize = (\<lambda>i. if i = 0 then 2 else 1),
      data = (\<lambda>i. if i = 0 then ([1, 2, 3, 4], 0) else if i = 1 then ([5], 0) else ([6], 0)),
      pts = 0\<rparr>"

definition frame_2x2_padded :: AVFrame where
  "frame_2x2_padded =
     \<lparr>AVFrame.width = 2, AVFrame.height = 2,
      linesize = (\<lambda>i. if i = 0 then 4 else 3),
      data = (\<lambda>i. if i = 0 then ([1, 2, 9, 9, 3, 4, 9, 9], 0)
                  else if i = 1 then ([5, 9, 9], 0) else ([6, 9, 9], 0)),
      pts = AV_NOPTS_VALUE\<rparr>"

definition frame_4x2 :: AVFrame where
  "frame_4x2 =
     \<lparr>AVFrame.width = 4, AVFrame.height = 2,
      linesize = (\<lambda>i. if i = 0 then 4 else 2),
      data = (\<lambda>i. if i = 0 then ([11, 12, 13, 14, 15, 16, 17, 18], 0)
                  else if i = 1 then ([21, 22], 0) else ([31, 32], 0)),
      pts = 2\<rparr>"


text \<open>A stand-in for \<^verbatim>\<open>av_rescale_q\<close> in the examples, exact for the time base 1/1.\<close>

definition rescale_seconds :: "int64_t \<Rightarrow> AVRational \<Rightarrow> AVRational \<Rightarrow> int64_t" where
  "rescale_seconds a bq cq = a * 1000000"

section \<open>Properties\<close>

subsection \<open>Bytes of a word\<close>

lemma and_255: "(x::'a::len word) AND 0xFF = take_bit 8 x"
  by (simp add: take_bit_eq_mask mask_eq_exp_minus_1)

lemma byte_of_shift:
  fixes x :: "'a::len word"
  assumes "k + 8 \<le> LENGTH('a)"
  shows "(ucast (ucast (signed_drop_bit k x AND 0xFF) :: byte) :: 'a word) = take_bit 8 (drop_bit k x)"
proof (rule bit_word_eqI)
  fix n assume "n < LENGTH('a)"
  with assms show "bit (ucast (ucast (signed_drop_bit k x AND 0xFF) :: byte) :: 'a word) n =
        bit (take_bit 8 (drop_bit k x)) n"
    by (auto simp add: and_255 bit_simps)
qed

lemma byte_of_word:
  fixes x :: "'a::len word"
  assumes "8 \<le> LENGTH('a)"
  shows "(ucast (ucast (x AND 0xFF) :: byte) :: 'a word) = take_bit 8 (drop_bit 0 x)"
  using byte_of_shift [of 0 x] assms by simp

lemma low_byte_and_rest:
  fixes x :: "'a::len word"
  shows "take_bit 8 (drop_bit k x) OR push_bit 8 (drop_bit (k + 8) x) = drop_bit k x"
proof (rule bit_word_eqI)
  fix n assume "n < LENGTH('a)"
  show "bit (take_bit 8 (drop_bit k x) OR push_bit 8 (drop_bit (k + 8) x)) n = bit (drop_bit k x) n"
  proof (cases "n < 8")
    case True
    then show ?thesis by (simp add: bit_simps)
  next
    case False
    then have "k + 8 + (n - 8) = k + n" by simp
    with False \<open>n < LENGTH('a)\<close> show ?thesis by (simp add: bit_simps)
  qed
qed

lemma top_byte:
  fixes x :: "'a::len word"
  assumes "LENGTH('a) \<le> k + 8"
  shows "take_bit 8 (drop_bit k x) = drop_bit k x"
proof (rule bit_word_eqI)
  fix n assume "n < LENGTH('a)"
  with assms show "bit (take_bit 8 (drop_bit k x)) n = bit (drop_bit k x) n"
    by (auto simp add: bit_simps dest: bit_imp_le_length)
qed

lemma le_decode64_bytes:
  "le_decode64 [b0, b1, b2, b3, b4, b5, b6, b7] =
     ucast b0 OR push_bit 8 (ucast b1 OR push_bit 8 (ucast b2 OR push_bit 8 (ucast b3 OR
     push_bit 8 (ucast b4 OR push_bit 8 (ucast b5 OR push_bit 8 (ucast b6 OR
     push_bit 8 (ucast b7)))))))"
  by (simp add: le_decode64_def)

lemma le_decode32_eq:
  "le_decode32 [b0, b1, b2, b3] =
     ucast b0 OR push_bit 8 (ucast b1 OR push_bit 8 (ucast b2 OR push_bit 8 (ucast b3)))"
  by (simp add: le_decode32_def)

lemma le_decode64_pts_bytes: "le_decode64 (pts_bytes x) = x"
proof -
  have b0: "(ucast (ucast (x AND 0xFF) :: byte) :: int64_t) = take_bit 8 (drop_bit 0 x)"
    by (rule byte_of_word) simp
  have b1: "(ucast (ucast (signed_drop_bit 8 x AND 0xFF) :: byte) :: int64_t) = take_bit 8 (drop_bit 8 x)"
    by (rule byte_of_shift) simp
  have b2: "(ucast (ucast (signed_drop_bit 16 x AND 0xFF) :: byte) :: int64_t) = take_bit 8 (drop_bit 16 x)"
    by (rule byte_of_shift) simp
  have b3: "(ucast (ucast (signed_drop_bit 24 x AND 0xFF) :: byte) :: int64_t) = take_bit 8 (drop_bit 24 x)"
    by (rule byte_of_shift) simp
  have b4: "(ucast (ucast (signed_drop_bit 32 x AND 0xFF) :: byte) :: int64_t) = take_bit 8 (drop_bit 32 x)"
    by (rule byte_of_shift) simp
  have b5: "(ucast (ucast (signed_drop_bit 40 x AND 0xFF) :: byte) :: int64_t) = take_bit 8 (drop_bit 40 x)"
    by (rule byte_of_shift) simp
  have b6: "(ucast (ucast (signed_drop_bit 48 x AND 0xFF) :: byte) :: int64_t) = take_bit 8 (drop_bit 48 x)"
    by (rule byte_of_shift) simp
  have "(ucast (ucast (signed_drop_bit 56 x AND 0xFF) :: byte) :: int64_t) = take_bit 8 (drop_bit 56 x)"
    by (rule byte_of_shift) simp
  also have "\<dots> = drop_bit 56 x"
    by (rule top_byte) simp
  finally have b7: "(ucast (ucast (signed_drop_bit 56 x AND 0xFF) :: byte) :: int64_t) = drop_bit 56 x" .
  have r: "take_bit 8 (drop_bit 48 x) OR push_bit 8 (drop_bit 56 x) = drop_bit 48 x"
    "take_bit 8 (drop_bit 40 x) OR push_bit 8 (drop_bit 48 x) = drop_bit 40 x"
    "take_bit 8 (drop_bit 32 x) OR push_bit 8 (drop_bit 40 x) = drop_bit 32 x"
    "take_bit 8 (drop_bit 24 x) OR push_bit 8 (drop_bit 32 x) = drop_bit 24 x"
    "take_bit 8 (drop_bit 16 x) OR push_bit 8 (drop_bit 24 x) = drop_bit 16 x"
    "take_bit 8 (drop_bit 8 x) OR push_bit 8 (drop_bit 16 x) = drop_bit 8 x"
    "take_bit 8 (drop_bit 0 x) OR push_bit 8 (drop_bit 8 x) = x"
    using low_byte_and_rest [of 48 x] low_byte_and_rest [of 40 x] low_byte_and_rest [of 32 x]
      low_byte_and_rest [of 24 x] low_byte_and_rest [of 16 x] low_byte_and_rest [of 8 x]
      low_byte_and_rest [of 0 x]
    by simp_all
  show ?thesis
    unfolding pts_bytes_def le_decode64_bytes by (simp only: b0 b1 b2 b3 b4 b5 b6 b7 r)
qed

lemma le_decode32_bytes:
  fixes x :: c_int
  shows "le_decode32
           [ucast (x AND 0xFF), ucast (signed_drop_bit 8 x AND 0xFF),
            ucast (signed_drop_bit 16 x AND 0xFF), ucast (signed_drop_bit 24 x AND 0xFF)] = x"
proof -
  have b0: "(ucast (ucast (x AND 0xFF) :: byte) :: c_int) = take_bit 8 (drop_bit 0 x)"
    by (rule byte_of_word) simp
  have b1: "(ucast (ucast (signed_drop_bit 8 x AND 0xFF) :: byte) :: c_int) = take_bit 8 (drop_bit 8 x)"
    by (rule byte_of_shift) simp
  have b2: "(ucast (ucast (signed_drop_bit 16 x AND 0xFF) :: byte) :: c_int) = take_bit 8 (drop_bit 16 x)"
    by (rule byte_of_shift) simp
  have "(ucast (ucast (signed_drop_bit 24 x AND 0xFF) :: byte) :: c_int) = take_bit 8 (drop_bit 24 x)"
    by (rule byte_of_shift) simp
  also have "\<dots> = drop_bit 24 x"
    by (rule top_byte) simp
  finally have b3: "(ucast (ucast (signed_drop_bit 24 x AND 0xFF) :: byte) :: c_int) = drop_bit 24 x" .
  have r: "take_bit 8 (drop_bit 16 x) OR push_bit 8 (drop_bit 24 x) = drop_bit 16 x"
    "take_bit 8 (drop_bit 8 x) OR push_bit 8 (drop_bit 16 x) = drop_bit 8 x"
    "take_bit 8 (drop_bit 0 x) OR push_bit 8 (drop_bit 8 x) = x"
    using low_byte_and_rest [of 16 x] low_byte_and_rest [of 8 x] low_byte_and_rest [of 0 x]
    by simp_all
  show ?thesis
    unfolding le_decode32_eq by (simp only: b0 b1 b2 b3 r)
qed

lemma length_header_bytes: "length (header_bytes a b) = 12"
  by (simp add: header_bytes_def)

lemma length_pts_bytes: "length (pts_bytes v) = 8"
  by (simp add: pts_bytes_def)

lemma decode_header_header_bytes: "decode_header (header_bytes a b) = Some (a, b)"
proof -
  have m: "take 4 (header_bytes a b) = magic"
    by (simp add: header_bytes_def magic_def)
  have wd: "le_decode32 (drop 4 (header_bytes a b)) = a"
    using le_decode32_bytes [of a] by (simp add: header_bytes_def le_decode32_def)
  have ht: "le_decode32 (drop 8 (header_bytes a b)) = b"
    using le_decode32_bytes [of b] by (simp add: header_bytes_def le_decode32_def)
  show ?thesis
    by (simp add: decode_header_def length_header_bytes m wd ht)
qed

lemma uint_eq_sint_nonneg: "0 \<le> sint (x :: 'a::len word) \<Longrightarrow> uint x = sint x"
proof -
  assume a: "0 \<le> sint x"
  have "sint x < 2 ^ (LENGTH('a) - 1)" by (rule sint_lt)
  also have "\<dots> \<le> (2 :: int) ^ LENGTH('a)" by (rule power_increasing) simp_all
  finally have "take_bit LENGTH('a) (sint x) = sint x"
    using a by (simp add: take_bit_int_eq_self)
  then show ?thesis by (simp add: uint_sint)
qed

text \<open>
  Claim C6. For all even width and height, both at least 2, the dimension packet that
  \<^verbatim>\<open>write_header\<close> builds has 12 bytes and starts with the magic \<^verbatim>\<open>YUV4\<close>, and the reader
  decodes from it two 32-bit fields whose unsigned values are exactly the frame's width
  and height.
\<close>

theorem dimension_packet_roundtrip:
  assumes "even (sint a)" and "2 \<le> sint a" and "even (sint b)" and "2 \<le> sint b"
  shows "length (header_bytes a b) = 12 \<and> take 4 (header_bytes a b) = magic \<and>
         (\<exists>rw rh. decode_header (header_bytes a b) = Some (rw, rh) \<and>
                   uint rw = sint a \<and> uint rh = sint b)"
proof -
  have "uint a = sint a" and "uint b = sint b"
    using assms by (simp_all add: uint_eq_sint_nonneg)
  then show ?thesis
    by (simp add: decode_header_header_bytes length_header_bytes)
       (simp add: header_bytes_def magic_def)
qed

theorem dimension_packet_roundtrip_witness:
  "header_bytes 640 480 = [0x59, 0x55, 0x56, 0x34, 0x80, 0x02, 0, 0, 0xE0, 0x01, 0, 0] \<and>
   decode_header (header_bytes 640 480) = Some (640, 480)"
proof -
  have "even (sint (640 :: c_int))" "2 \<le> sint (640 :: c_int)"
       "even (sint (480 :: c_int))" "2 \<le> sint (480 :: c_int)"
    by simp_all
  from dimension_packet_roundtrip [OF this]
  have "\<exists>rw rh. decode_header (header_bytes 640 480) = Some (rw, rh) \<and>
           uint rw = sint (640 :: c_int) \<and> uint rh = sint (480 :: c_int)"
    by simp
  then have dec: "decode_header (header_bytes 640 480) = Some (640, 480)"
    by (auto simp: word_uint_eq_iff)
  have enc: "header_bytes 640 480 = [0x59, 0x55, 0x56, 0x34, 0x80, 0x02, 0, 0, 0xE0, 0x01, 0, 0]"
    by code_simp
  from enc dec show ?thesis by (rule conjI)
qed

text \<open>
  Claim C4. The claim says that no timestamp below a multi-millennium duration has the
  magic as the first 4 bytes of its encoding. The encoding is little-endian, so the first
  4 bytes are the low 32 bits: the timestamp 878073177 microseconds (14 minutes and 38
  seconds) is written as \<^verbatim>\<open>YUV4\<close> followed by four zero bytes.
\<close>

theorem timestamp_collides_with_magic:
  "sint (878073177 :: int64_t) = 878073177 \<and>
   pts_bytes 878073177 = [0x59, 0x55, 0x56, 0x34, 0, 0, 0, 0] \<and>
   take 4 (pts_bytes 878073177) = magic"
  by code_simp

subsection \<open>The kernel's side of a write\<close>

lemma sys_write_calls: "sys_write w d buf = (w', ret) \<Longrightarrow> calls w' = calls w @ [Write d buf ret]"
  by (auto simp: sys_write_def Let_def)

lemma sys_write_pipe:
  "sys_write w d buf = (w', ret) \<Longrightarrow>
     pipe w' = pipe w @ take (accepted (next_wres w) (length buf)) buf"
  by (auto simp: sys_write_def Let_def)

lemma sys_write_ret: "sys_write w d buf = (w', ret) \<Longrightarrow> ret = returned (next_wres w) (length buf)"
  by (auto simp: sys_write_def Let_def)

lemma sys_write_malloc_results:
  "sys_write w d buf = (w', ret) \<Longrightarrow> malloc_results w' = malloc_results w"
  by (auto simp: sys_write_def Let_def)

lemma sys_writev_calls:
  "sys_writev w d iov = (w', ret) \<Longrightarrow> calls w' = calls w @ [Writev d iov ret]"
  by (auto simp: sys_writev_def Let_def)

lemma sys_writev_pipe:
  "sys_writev w d iov = (w', ret) \<Longrightarrow>
     pipe w' = pipe w @ take (accepted (next_wres w) (length (concat iov))) (concat iov)"
  by (auto simp: sys_writev_def Let_def)

lemma sys_writev_ret:
  "sys_writev w d iov = (w', ret) \<Longrightarrow> ret = returned (next_wres w) (length (concat iov))"
  by (auto simp: sys_writev_def Let_def)

text \<open>
  A call that returns the number of bytes offered has delivered all of them, as long as
  that number is below \<open>2 ^ 64 - 1\<close> (the value that \<open>- 1\<close> has as a \<^verbatim>\<open>size_t\<close>).
\<close>

lemma returned_all_accepted:
  assumes "n < 2 ^ 64 - 1" and "returned r n = of_nat n"
  shows "accepted r n = n"
proof (cases r)
  case Complete
  then show ?thesis by simp
next
  case (Partial k)
  with assms have "(of_nat (min k n) :: 64 word) = of_nat n" by simp
  moreover have "min k n < 2 ^ 64" and "n < 2 ^ 64" using assms by auto
  ultimately have "min k n = n"
    by (simp add: word_of_nat_eq_iff take_bit_nat_eq_self)
  with Partial show ?thesis by simp
next
  case Error
  with assms have "(of_nat n :: 64 word) = - 1" by simp
  then have "unat (of_nat n :: 64 word) = unat (- 1 :: 64 word)" by simp
  moreover have "unat (of_nat n :: 64 word) = n"
    using assms by (simp add: unat_of_nat)
  ultimately have "n = 2 ^ 64 - 1"
    by (simp add: unsigned_minus_1_eq_mask mask_eq_exp_minus_1)
  with assms show ?thesis by simp
qed

lemma write_header_True:
  assumes "write_header w fps a b = (w', fps', True)"
  shows "pipe w' = pipe w @ header_bytes a b"
    and "calls w' = calls w @ [Write (fd fps) (header_bytes a b) 12]"
    and "fps' = fps\<lparr>width := a, height := b\<rparr>"
    and "write_results w' = tl (write_results w)"
    and "malloc_results w' = malloc_results w"
proof -
  obtain w1 ret where sw: "sys_write w (fd fps) (header_bytes a b) = (w1, ret)"
    by (cases "sys_write w (fd fps) (header_bytes a b)")
  with assms have r: "ret = 12" and w: "w1 = w'" and "fps' = fps\<lparr>width := a, height := b\<rparr>"
    by (auto simp: write_header_def split: if_splits)
  then show "fps' = fps\<lparr>width := a, height := b\<rparr>" by simp
  have len: "length (header_bytes a b) = 12" by (simp add: header_bytes_def)
  from sys_write_ret [OF sw] r len have "returned (next_wres w) 12 = of_nat 12" by simp
  then have "accepted (next_wres w) 12 = 12"
    by (intro returned_all_accepted) simp_all
  with sys_write_pipe [OF sw] len w show "pipe w' = pipe w @ header_bytes a b" by simp
  from sys_write_calls [OF sw] r w show "calls w' = calls w @ [Write (fd fps) (header_bytes a b) 12]"
    by simp
  from sw w show "write_results w' = tl (write_results w)" "malloc_results w' = malloc_results w"
    by (auto simp: sys_write_def Let_def)
qed

lemma write_header_False:
  assumes "write_header w fps a b = (w', fps', False)"
  shows "fps' = fps"
    and "\<exists>ret. ret \<noteq> 12 \<and> calls w' = calls w @ [Write (fd fps) (header_bytes a b) ret]"
  using assms by (auto simp: write_header_def sys_write_def Let_def split: if_splits)

lemma write_pts_True:
  assumes "write_pts w fps v = (w', True)"
  shows "pipe w' = pipe w @ pts_bytes v"
    and "calls w' = calls w @ [Write (fd fps) (pts_bytes v) 8]"
    and "write_results w' = tl (write_results w)"
    and "malloc_results w' = malloc_results w"
proof -
  obtain w1 ret where sw: "sys_write w (fd fps) (pts_bytes v) = (w1, ret)"
    by (cases "sys_write w (fd fps) (pts_bytes v)")
  with assms have r: "ret = 8" and w: "w1 = w'"
    by (auto simp: write_pts_def split: if_splits)
  have len: "length (pts_bytes v) = 8" by (simp add: pts_bytes_def)
  from sys_write_ret [OF sw] r len have "returned (next_wres w) 8 = of_nat 8" by simp
  then have "accepted (next_wres w) 8 = 8"
    by (intro returned_all_accepted) simp_all
  with sys_write_pipe [OF sw] len w show "pipe w' = pipe w @ pts_bytes v" by simp
  from sys_write_calls [OF sw] r w show "calls w' = calls w @ [Write (fd fps) (pts_bytes v) 8]"
    by simp
  from sw w show "write_results w' = tl (write_results w)" "malloc_results w' = malloc_results w"
    by (auto simp: sys_write_def Let_def)
qed

lemma write_pts_False:
  assumes "write_pts w fps v = (w', False)"
  shows "\<exists>ret. ret \<noteq> 8 \<and> calls w' = calls w @ [Write (fd fps) (pts_bytes v) ret]"
  using assms by (auto simp: write_pts_def sys_write_def Let_def split: if_splits)

subsection \<open>Pushing on a sink that is not streaming\<close>

lemma push_rejected:
  "sint (fd fps) < 0 \<or> stopped fps \<Longrightarrow>
     sc_frame_pipe_sink_push av w fps frame = Some (w, fps, False)"
  by (simp add: sc_frame_pipe_sink_push_def)

lemma init_fd: "sc_frame_pipe_sink_init ok mem path = Some fps \<Longrightarrow> fd fps = - 1"
  by (auto simp: sc_frame_pipe_sink_init_def split: if_splits)

text \<open>
  Claim C8. A push on a sink whose descriptor is negative (never opened: initialisation
  sets it to \<open>- 1\<close>) or whose \<open>stopped\<close> flag is set returns failure and changes neither
  the world (no system call, nothing written) nor the sink (dimensions, flag, scratch
  buffer), whatever the frame.
\<close>

theorem push_unopened_or_stopped:
  "(sint (fd fps) < 0 \<or> stopped fps \<longrightarrow>
      sc_frame_pipe_sink_push av w fps frame = Some (w, fps, False)) \<and>
   (sc_frame_pipe_sink_init ok mem path = Some fps0 \<longrightarrow>
      sc_frame_pipe_sink_push av w fps0 frame = Some (w, fps0, False))"
proof (intro conjI impI)
  assume "sint (fd fps) < 0 \<or> stopped fps"
  then show "sc_frame_pipe_sink_push av w fps frame = Some (w, fps, False)"
    by (rule push_rejected)
next
  assume "sc_frame_pipe_sink_init ok mem path = Some fps0"
  then have "sint (fd fps0) < 0" by (simp add: init_fd)
  then show "sc_frame_pipe_sink_push av w fps0 frame = Some (w, fps0, False)"
    by (simp add: push_rejected)
qed

theorem push_unopened_or_stopped_witness:
  "sc_frame_pipe_sink_init True blank_sink ''/tmp/frames'' = Some fresh_sink \<and>
   sc_frame_pipe_sink_push rescale_seconds quiet_world fresh_sink frame_2x2 =
     Some (quiet_world, fresh_sink, False) \<and>
   stopped (open_sink\<lparr>stopped := True\<rparr>) \<and>
   sc_frame_pipe_sink_push rescale_seconds quiet_world (open_sink\<lparr>stopped := True\<rparr>) frame_2x2 =
     Some (quiet_world, open_sink\<lparr>stopped := True\<rparr>, False)"
proof -
  have i: "sc_frame_pipe_sink_init True blank_sink ''/tmp/frames'' = Some fresh_sink"
    by (simp add: sc_frame_pipe_sink_init_def blank_sink_def fresh_sink_def)
  have s: "stopped (open_sink\<lparr>stopped := True\<rparr>)" by simp
  from push_unopened_or_stopped [of "open_sink\<lparr>stopped := True\<rparr>" rescale_seconds quiet_world
      frame_2x2 True blank_sink "''/tmp/frames''" fresh_sink] i s
  show ?thesis by simp
qed

lemma close_fd:
  "sc_frame_pipe_sink_close w fps = (w1, fps1) \<Longrightarrow>
     sint (fd fps1) < 0 \<and> (0 \<le> sint (fd fps) \<longrightarrow> fd fps1 = - 1)"
  by (auto simp: sc_frame_pipe_sink_close_def Let_def split: if_splits)

lemma failed_open_fd:
  "sint (fd fps) < 0 \<Longrightarrow> sc_frame_pipe_sink_open mk op w fps tb = (w2, fps2, False) \<Longrightarrow>
     sint (fd fps2) < 0"
  by (auto simp: sc_frame_pipe_sink_open_def Let_def split: if_splits)

text \<open>
  Claim C10. After a close the descriptor is negative (\<open>- 1\<close> when it was open), and a
  failed open of a sink whose descriptor is negative, as initialisation and close leave
  it, leaves it negative; a push then returns failure with the world and the sink
  unchanged, whatever the frame.
\<close>

theorem push_after_close_or_failed_open:
  "(sc_frame_pipe_sink_close w fps = (w1, fps1) \<longrightarrow>
      sint (fd fps1) < 0 \<and> (0 \<le> sint (fd fps) \<longrightarrow> fd fps1 = - 1) \<and>
      sc_frame_pipe_sink_push av w1 fps1 frame = Some (w1, fps1, False)) \<and>
   (sint (fd fps0) < 0 \<and> sc_frame_pipe_sink_open mk op w0 fps0 tb = (w2, fps2, False) \<longrightarrow>
      sint (fd fps2) < 0 \<and>
      sc_frame_pipe_sink_push av w2 fps2 frame = Some (w2, fps2, False))"
  using close_fd [of w fps w1 fps1] failed_open_fd [of fps0 mk op w0 tb w2 fps2]
  by (auto simp: push_rejected)

theorem push_after_close_or_failed_open_witness:
  "(\<exists>w1 fps1. sc_frame_pipe_sink_close quiet_world open_sink = (w1, fps1) \<and>
      calls w1 = [Close 3, Unlink ''/tmp/frames''] \<and> fd fps1 = - 1 \<and>
      sc_frame_pipe_sink_push rescale_seconds w1 fps1 frame_2x2 = Some (w1, fps1, False)) \<and>
   (\<exists>w2 fps2. sc_frame_pipe_sink_open 0 (- 1) quiet_world fresh_sink \<lparr>num = 1, den = 1\<rparr> =
         (w2, fps2, False) \<and>
      sc_frame_pipe_sink_push rescale_seconds w2 fps2 frame_2x2 = Some (w2, fps2, False)) \<and>
   (\<exists>w2 fps2. sc_frame_pipe_sink_open (- 1) 3 quiet_world fresh_sink \<lparr>num = 1, den = 1\<rparr> =
         (w2, fps2, False) \<and>
      sc_frame_pipe_sink_push rescale_seconds w2 fps2 frame_2x2 = Some (w2, fps2, False))"
proof -
  obtain w1 fps1 where c: "sc_frame_pipe_sink_close quiet_world open_sink = (w1, fps1)"
    by (cases "sc_frame_pipe_sink_close quiet_world open_sink")
  then have c': "calls w1 = [Close 3, Unlink ''/tmp/frames'']"
    by (auto simp: sc_frame_pipe_sink_close_def quiet_world_def open_sink_def Let_def)
  have f: "sint (fd fresh_sink) < 0" by (simp add: fresh_sink_def)
  have o: "0 \<le> sint (fd open_sink)" by (simp add: open_sink_def)
  obtain w2 fps2 where
    o1: "sc_frame_pipe_sink_open 0 (- 1) quiet_world fresh_sink \<lparr>num = 1, den = 1\<rparr> = (w2, fps2, False)"
    by (simp add: sc_frame_pipe_sink_open_def Let_def)
  obtain w3 fps3 where
    o2: "sc_frame_pipe_sink_open (- 1) 3 quiet_world fresh_sink \<lparr>num = 1, den = 1\<rparr> = (w3, fps3, False)"
    by (simp add: sc_frame_pipe_sink_open_def Let_def)
  from push_after_close_or_failed_open [where w = quiet_world and fps = open_sink and ?w1.0 = w1
      and ?fps1.0 = fps1 and av = rescale_seconds and frame = frame_2x2 and ?fps0.0 = fresh_sink
      and mk = 0 and op = "- 1" and ?w0.0 = quiet_world and tb = "\<lparr>num = 1, den = 1\<rparr>"
      and ?w2.0 = w2 and ?fps2.0 = fps2] c c' f o o1
  have a: "\<exists>w1 fps1. sc_frame_pipe_sink_close quiet_world open_sink = (w1, fps1) \<and>
      calls w1 = [Close 3, Unlink ''/tmp/frames''] \<and> fd fps1 = - 1 \<and>
      sc_frame_pipe_sink_push rescale_seconds w1 fps1 frame_2x2 = Some (w1, fps1, False)"
    and b: "\<exists>w2 fps2. sc_frame_pipe_sink_open 0 (- 1) quiet_world fresh_sink \<lparr>num = 1, den = 1\<rparr> =
         (w2, fps2, False) \<and>
      sc_frame_pipe_sink_push rescale_seconds w2 fps2 frame_2x2 = Some (w2, fps2, False)"
    by auto
  from push_after_close_or_failed_open [where w = quiet_world and fps = open_sink and ?w1.0 = w1
      and ?fps1.0 = fps1 and av = rescale_seconds and frame = frame_2x2 and ?fps0.0 = fresh_sink
      and mk = "- 1" and op = 3 and ?w0.0 = quiet_world and tb = "\<lparr>num = 1, den = 1\<rparr>"
      and ?w2.0 = w3 and ?fps2.0 = fps3] f o2
  have d: "\<exists>w2 fps2. sc_frame_pipe_sink_open (- 1) 3 quiet_world fresh_sink \<lparr>num = 1, den = 1\<rparr> =
         (w2, fps2, False) \<and>
      sc_frame_pipe_sink_push rescale_seconds w2 fps2 frame_2x2 = Some (w2, fps2, False)"
    by auto
  from a b d show ?thesis by (intro conjI)
qed

subsection \<open>The copy loops\<close>

lemma memcpy_Some:
  assumes "memcpy buf dst src off n = Some buf1"
  shows "0 \<le> int (snd src) + off"
    and "nat (int (snd src) + off) + n \<le> length (fst src)"
    and "dst + n \<le> length buf"
    and "buf1 = take dst buf @ take n (drop (nat (int (snd src) + off)) (fst src)) @ drop (dst + n) buf"
proof -
  let ?i = "int (snd src) + off"
  from assms obtain bs where l: "load src off n = Some bs" and st: "store buf dst bs = Some buf1"
    by (auto simp: memcpy_def split: option.splits)
  from l show i: "0 \<le> ?i" and fit: "nat ?i + n \<le> length (fst src)"
    by (auto simp: load_def Let_def split: if_splits)
  from l i fit have bs: "bs = take n (drop (nat ?i) (fst src))"
    by (auto simp: load_def Let_def)
  with fit have len: "length bs = n" by simp
  from st len show "dst + n \<le> length buf"
    by (auto simp: store_def split: if_splits)
  from st len bs show "buf1 = take dst buf @ take n (drop (nat ?i) (fst src)) @ drop (dst + n) buf"
    by (auto simp: store_def split: if_splits)
qed

lemma copy_plane_rows:
  assumes "copy_plane buf dst src stride rw rows y = Some (buf', dst')" and "0 \<le> y"
  shows "length buf' = length buf \<and>
         dst' = dst + nat (sint rw) * (nat (sint rows) - nat y) \<and>
         buf' = take dst buf @
                concat (map (plane_row src (sint stride) (nat (sint rw))) [nat y..<nat (sint rows)]) @
                drop dst' buf \<and>
         length (concat (map (plane_row src (sint stride) (nat (sint rw))) [nat y..<nat (sint rows)]))
           = nat (sint rw) * (nat (sint rows) - nat y) \<and>
         (nat y < nat (sint rows) \<longrightarrow> dst' \<le> length buf \<and> 0 \<le> sint rw)"
  using assms
proof (induction buf dst src stride rw rows y arbitrary: buf' dst' rule: copy_plane.induct)
  case (1 buf dst src stride rw rows y)
  let ?n = "nat (sint rw)"
  let ?row = "plane_row src (sint stride) ?n"
  show ?case
  proof (cases "y < sint rows")
    case False
    with "1.prems" have "buf' = buf" "dst' = dst"
      by (simp_all add: copy_plane.simps [of buf dst src stride rw rows y])
    moreover from False "1.prems" have "nat (sint rows) \<le> nat y" by simp
    ultimately show ?thesis using False by simp
  next
    case True
    with "1.prems" have ok: "\<not> (sint rw < 0 \<or> \<not> in_int_range (y * sint stride))"
      by (auto simp: copy_plane.simps [of buf dst src stride rw rows y] split: if_splits)
    with True "1.prems" obtain buf1 where
      m: "memcpy buf dst src (y * sint stride) ?n = Some buf1" and
      rec: "copy_plane buf1 (dst + ?n) src stride rw rows (y + 1) = Some (buf', dst')"
      by (auto simp: copy_plane.simps [of buf dst src stride rw rows y] split: option.splits)
    from "1.prems" have y: "int (nat y) = y" "nat (y + 1) = Suc (nat y)" by simp_all
    from True "1.prems" have lt: "nat y < nat (sint rows)" by simp
    have rowy: "?row (nat y) = take ?n (drop (nat (int (snd src) + y * sint stride)) (fst src))"
      unfolding plane_row_def y ..
    from memcpy_Some [OF m] have
      fit: "dst + ?n \<le> length buf" and
      src: "nat (int (snd src) + y * sint stride) + ?n \<le> length (fst src)" and
      b1: "buf1 = take dst buf @ ?row (nat y) @ drop (dst + ?n) buf"
      by (simp_all add: rowy)
    from src have lrow: "length (?row (nat y)) = ?n"
      by (simp add: rowy)
    from b1 fit lrow have lb1: "length buf1 = length buf" by simp
    from "1.prems" have y1: "0 \<le> y + 1" by simp
    from "1.IH" [OF True ok m rec y1] have
      ih: "length buf' = length buf1 \<and>
         dst' = dst + ?n + ?n * (nat (sint rows) - Suc (nat y)) \<and>
         buf' = take (dst + ?n) buf1 @ concat (map ?row [Suc (nat y)..<nat (sint rows)]) @
                drop dst' buf1 \<and>
         length (concat (map ?row [Suc (nat y)..<nat (sint rows)]))
           = ?n * (nat (sint rows) - Suc (nat y)) \<and>
         (Suc (nat y) < nat (sint rows) \<longrightarrow> dst' \<le> length buf1 \<and> 0 \<le> sint rw)"
      unfolding y .
    from ih have ih1: "length buf' = length buf1" by (rule conjunct1)
    from ih have ih2: "dst' = dst + ?n + ?n * (nat (sint rows) - Suc (nat y))"
      by (rule conjunct2 [THEN conjunct1])
    from ih have ih3: "buf' = take (dst + ?n) buf1 @
        concat (map ?row [Suc (nat y)..<nat (sint rows)]) @ drop dst' buf1"
      by (rule conjunct2 [THEN conjunct2, THEN conjunct1])
    from ih have ih4: "length (concat (map ?row [Suc (nat y)..<nat (sint rows)]))
           = ?n * (nat (sint rows) - Suc (nat y))"
      by (rule conjunct2 [THEN conjunct2, THEN conjunct2, THEN conjunct1])
    from ih have ih5: "Suc (nat y) < nat (sint rows) \<longrightarrow> dst' \<le> length buf1"
      by blast
    from lt have cnt: "nat (sint rows) - nat y = Suc (nat (sint rows) - Suc (nat y))"
      by (rule Suc_diff_Suc [symmetric])
    have d: "dst' = dst + ?n * (nat (sint rows) - nat y)"
      by (simp add: ih2 cnt)
    have upt: "[nat y..<nat (sint rows)] = nat y # [Suc (nat y)..<nat (sint rows)]"
      using lt by (simp add: upt_conv_Cons)
    from fit lrow have tk: "take (dst + ?n) buf1 = take dst buf @ ?row (nat y)"
      by (simp add: b1)
    have ge: "dst + ?n \<le> dst'" by (simp add: ih2)
    from ih1 lb1 rec have "length buf' = length buf" by simp
    have dr: "drop dst' buf1 = drop dst' buf"
    proof -
      from ge obtain k where k: "dst' = dst + ?n + k" by (auto simp: le_iff_add)
      from fit lrow have "drop (dst + ?n + k) buf1 = drop k (drop (dst + ?n) buf)"
        by (simp add: b1)
      then show ?thesis by (simp add: k add.commute)
    qed
    have bound: "dst' \<le> length buf"
    proof (cases "Suc (nat y) < nat (sint rows)")
      case True
      with ih5 lb1 show ?thesis by simp
    next
      case False
      with ih2 fit show ?thesis by simp
    qed
    from ok have nn: "0 \<le> sint rw" by simp
    have cat: "concat (map ?row [nat y..<nat (sint rows)]) =
        ?row (nat y) @ concat (map ?row [Suc (nat y)..<nat (sint rows)])"
      by (simp add: upt)
    have "buf' = take dst buf @ concat (map ?row [nat y..<nat (sint rows)]) @ drop dst' buf"
      by (simp only: ih3 tk dr cat append_assoc)
    moreover have "length (concat (map ?row [nat y..<nat (sint rows)]))
        = ?n * (nat (sint rows) - nat y)"
      by (simp only: cat length_append lrow ih4 cnt mult_Suc_right)
    ultimately show ?thesis
      using \<open>length buf' = length buf\<close> d bound nn by blast
  qed
qed

subsection \<open>Sizes of a frame with non-negative dimensions\<close>

lemma sint_int_div_2:
  assumes "0 \<le> sint x"
  shows "sint (int_div x 2) = sint x div 2"
proof -
  have lt: "sint x < 2 ^ 31" using sint_lt [of x] by simp
  have two: "sint (2 :: c_int) = 2" by simp
  have q: "sint x sdiv 2 = sint x div 2"
    using assms by (simp add: signed_divide_int_def sgn_if)
  have lo: "- (2 ^ 31) \<le> sint x div 2" using assms by simp
  have hi: "sint x div 2 < 2 ^ 31" using assms lt by simp
  have "sint (word_of_int (sint x div 2) :: c_int) = signed_take_bit 31 (sint x div 2)"
    by (simp only: sint_sbintrunc') simp
  also have "\<dots> = sint x div 2"
    using lo hi by (rule signed_take_bit_int_eq_self)
  finally show ?thesis
    by (simp only: int_div_def two q)
qed

lemma scast_nonneg:
  assumes "0 \<le> sint (x :: c_int)"
  shows "(scast x :: size_t) = of_nat (nat (sint x))"
proof -
  from assms have e: "int (nat (sint x)) = sint x" by simp
  have "(of_nat (nat (sint x)) :: size_t) = word_of_int (int (nat (sint x)))"
    by (rule of_int_of_nat_eq [symmetric])
  also have "\<dots> = word_of_int (sint x)" by (simp only: e)
  also have "\<dots> = scast x" by (rule scast_eq [symmetric])
  finally show ?thesis by (rule sym)
qed

lemma nat_sint_bound: "nat (sint (x :: c_int)) < 2 ^ 31"
  using sint_lt [of x] by simp

lemma unat_product:
  assumes "0 \<le> sint (a :: c_int)" and "0 \<le> sint (b :: c_int)"
  shows "unat ((scast a :: size_t) * scast b) = nat (sint a) * nat (sint b)"
proof -
  let ?m = "nat (sint a) * nat (sint b)"
  have "?m \<le> 2 ^ 31 * 2 ^ 31"
    using nat_sint_bound [of a] nat_sint_bound [of b] by (intro mult_mono) simp_all
  also have "\<dots> < (2 :: nat) ^ 64" by simp
  finally have small: "?m < 2 ^ LENGTH(64)" by simp
  have "(scast a :: size_t) * scast b = of_nat ?m"
    by (simp only: scast_nonneg [OF assms(1)] scast_nonneg [OF assms(2)] of_nat_mult)
  then show ?thesis
    using small by (rule of_nat_inverse [OF sym])
qed

lemma frame_sizes:
  assumes "0 \<le> sint (AVFrame.width frame)" and "0 \<le> sint (AVFrame.height frame)"
  shows "nat (sint (uv_width frame)) = nat (sint (AVFrame.width frame)) div 2"
    and "nat (sint (uv_height frame)) = nat (sint (AVFrame.height frame)) div 2"
    and "0 \<le> sint (uv_width frame)" and "0 \<le> sint (uv_height frame)"
    and "unat (y_size frame) = nat (sint (AVFrame.width frame)) * nat (sint (AVFrame.height frame))"
    and "unat (uv_size frame) =
           (nat (sint (AVFrame.width frame)) div 2) * (nat (sint (AVFrame.height frame)) div 2)"
    and "unat (frame_size frame) =
           nat (sint (AVFrame.width frame)) * nat (sint (AVFrame.height frame)) +
           2 * ((nat (sint (AVFrame.width frame)) div 2) * (nat (sint (AVFrame.height frame)) div 2))"
    and "unat (frame_size frame) < 2 ^ 64 - 1"
proof -
  let ?W = "nat (sint (AVFrame.width frame))" and ?H = "nat (sint (AVFrame.height frame))"
  have uw: "sint (uv_width frame) = sint (AVFrame.width frame) div 2"
    and uh: "sint (uv_height frame) = sint (AVFrame.height frame) div 2"
    using assms by (simp_all add: uv_width_def uv_height_def sint_int_div_2)
  from uw uh assms show nuw: "nat (sint (uv_width frame)) = ?W div 2"
    and nuh: "nat (sint (uv_height frame)) = ?H div 2"
    by (simp_all add: nat_div_distrib)
  from uw uh assms show p: "0 \<le> sint (uv_width frame)" "0 \<le> sint (uv_height frame)"
    by simp_all
  from assms show y: "unat (y_size frame) = ?W * ?H"
    unfolding y_size_def by (rule unat_product)
  from p have "unat (uv_size frame) = nat (sint (uv_width frame)) * nat (sint (uv_height frame))"
    unfolding uv_size_def by (rule unat_product)
  then show uv: "unat (uv_size frame) = (?W div 2) * (?H div 2)"
    by (simp only: nuw nuh)
  have "?W * ?H \<le> 2 ^ 31 * 2 ^ 31"
    using nat_sint_bound [of "AVFrame.width frame"] nat_sint_bound [of "AVFrame.height frame"]
    by (intro mult_mono) simp_all
  moreover have "(?W div 2) * (?H div 2) \<le> 2 ^ 30 * 2 ^ 30"
    using nat_sint_bound [of "AVFrame.width frame"] nat_sint_bound [of "AVFrame.height frame"]
    by (intro mult_mono) simp_all
  ultimately have b: "?W * ?H + 2 * ((?W div 2) * (?H div 2)) < 2 ^ 63" by simp
  have "frame_size frame = of_nat (unat (y_size frame)) + of_nat (unat (uv_size frame)) * 2"
    by (simp only: frame_size_def of_nat_unat ucast_id)
  also have "\<dots> = of_nat (unat (y_size frame) + 2 * unat (uv_size frame))"
    by (simp only: of_nat_add of_nat_mult of_nat_numeral mult.commute)
  finally have fs_eq: "of_nat (?W * ?H + 2 * ((?W div 2) * (?H div 2))) = frame_size frame"
    by (simp only: y uv)
  from b have small: "?W * ?H + 2 * ((?W div 2) * (?H div 2)) < 2 ^ LENGTH(64)" by simp
  from fs_eq small show fs: "unat (frame_size frame) = ?W * ?H + 2 * ((?W div 2) * (?H div 2))"
    by (rule of_nat_inverse)
  from b show "unat (frame_size frame) < 2 ^ 64 - 1" unfolding fs by simp
qed

subsection \<open>Rows of a plane without padding\<close>

lemma plane_rows_Suc:
  "plane_rows p stride n (Suc h) = plane_rows p stride n h @ plane_row p stride n h"
  by (simp add: plane_rows_def)

lemma plane_rows_contiguous:
  assumes "snd p + n * h \<le> length (fst p)"
  shows "plane_rows p (int n) n h = take (n * h) (drop (snd p) (fst p))"
  using assms
proof (induction h)
  case 0
  then show ?case by (simp add: plane_rows_def)
next
  case (Suc h)
  then have "plane_rows p (int n) n h = take (n * h) (drop (snd p) (fst p))" by simp
  moreover have "plane_row p (int n) n h = take n (drop (n * h) (drop (snd p) (fst p)))"
    by (simp add: plane_row_def nat_add_distrib nat_mult_distrib add.commute mult.commute
          flip: of_nat_mult of_nat_add)
  moreover have "n * Suc h = n * h + n" by simp
  ultimately show ?case
    by (simp only: plane_rows_Suc take_add)
qed

subsection \<open>What the two paths offer to the pipe\<close>

lemma sys_malloc_world:
  assumes "sys_malloc w n = (w', blk)"
  shows "pipe w' = pipe w" and "calls w' = calls w" and "write_results w' = write_results w"
    and "\<And>b. blk = Some b \<Longrightarrow> length b = unat n"
  using assms by (auto simp: sys_malloc_def split: list.splits option.splits)

lemma ensure_frame_buf_world:
  assumes "ensure_frame_buf w fps frame = (w1, fps1, ok)"
  shows "pipe w1 = pipe w" and "calls w1 = calls w" and "write_results w1 = write_results w"
    and "\<exists>b n. fps1 = fps\<lparr>frame_buf := b, frame_buf_size := n\<rparr>"
    and "ok \<longleftrightarrow> frame_buf fps1 \<noteq> None"
proof -
  obtain w' blk where m: "sys_malloc w (frame_size frame) = (w', blk)"
    by (cases "sys_malloc w (frame_size frame)")
  note mw = sys_malloc_world(1-3) [OF m]
  from assms m mw show "pipe w1 = pipe w" "calls w1 = calls w" "write_results w1 = write_results w"
    by (auto simp: ensure_frame_buf_def split: if_splits option.splits)
  from assms m show "\<exists>b n. fps1 = fps\<lparr>frame_buf := b, frame_buf_size := n\<rparr>"
  proof (cases "frame_buf fps = None \<or> frame_buf_size fps < frame_size frame")
    case True
    show ?thesis
    proof (cases blk)
      case None
      with True assms m have "fps1 = fps\<lparr>frame_buf := None\<rparr>"
        by (auto simp: ensure_frame_buf_def)
      then have "fps1 = fps\<lparr>frame_buf := None, frame_buf_size := frame_buf_size fps\<rparr>"
        by simp
      then show ?thesis by blast
    next
      case (Some b)
      with True assms m
      have "fps1 = fps\<lparr>frame_buf := Some b, frame_buf_size := frame_size frame\<rparr>"
        by (auto simp: ensure_frame_buf_def)
      then show ?thesis by blast
    qed
  next
    case False
    with assms have "fps1 = fps" by (simp add: ensure_frame_buf_def)
    then have "fps1 = fps\<lparr>frame_buf := frame_buf fps, frame_buf_size := frame_buf_size fps\<rparr>"
      by simp
    then show ?thesis by blast
  qed
  from assms m show "ok \<longleftrightarrow> frame_buf fps1 \<noteq> None"
    by (auto simp: ensure_frame_buf_def split: if_splits option.splits)
qed

lemma write_copy_steps:
  assumes "write_copy w fps frame = Some (w', fps', r)" and "frame_buf fps' \<noteq> None"
  obtains w1 fps1 buf0 buf1 dst1 buf2 dst2 buf3 dst3 written where
    "ensure_frame_buf w fps frame = (w1, fps1, True)"
    "frame_buf fps1 = Some buf0"
    "copy_plane buf0 0 (data frame 0) (linesize frame 0)
       (AVFrame.width frame) (AVFrame.height frame) 0 = Some (buf1, dst1)"
    "copy_plane buf1 dst1 (data frame 1) (linesize frame 1)
       (uv_width frame) (uv_height frame) 0 = Some (buf2, dst2)"
    "copy_plane buf2 dst2 (data frame 2) (linesize frame 2)
       (uv_width frame) (uv_height frame) 0 = Some (buf3, dst3)"
    "unat (frame_size frame) \<le> length buf3"
    "sys_write w1 (fd fps1) (take (unat (frame_size frame)) buf3) = (w', written)"
    "fps' = fps1\<lparr>frame_buf := Some buf3\<rparr>"
    "r \<longleftrightarrow> written = frame_size frame"
proof -
  obtain w1 fps1 ok where e: "ensure_frame_buf w fps frame = (w1, fps1, ok)"
    by (cases "ensure_frame_buf w fps frame")
  have ok: ok
  proof (rule ccontr)
    assume "\<not> ok"
    with assms(1) e have "fps' = fps1" by (simp add: write_copy_def)
    with ensure_frame_buf_world(5) [OF e] \<open>\<not> ok\<close> assms(2) show False by simp
  qed
  with assms(1) e show thesis
    by (auto simp: write_copy_def Let_def split: option.splits if_splits prod.splits
          intro!: that)
qed

lemma write_copy_offer:
  assumes nonneg: "0 \<le> sint (AVFrame.width frame)" "0 \<le> sint (AVFrame.height frame)"
    and run: "write_copy w fps frame = Some (w', fps', r)"
    and alloc: "frame_buf fps' \<noteq> None"
  shows "\<exists>w1 ret. pipe w1 = pipe w \<and> calls w1 = calls w \<and> write_results w1 = write_results w \<and>
           sys_write w1 (fd fps) (payload frame) = (w', ret) \<and> (r \<longleftrightarrow> ret = frame_size frame)"
    and "length (payload frame) = unat (frame_size frame)"
proof -
  let ?W = "nat (sint (AVFrame.width frame))" and ?H = "nat (sint (AVFrame.height frame))"
  let ?Y = "plane_rows (data frame 0) (sint (linesize frame 0)) ?W ?H"
  let ?U = "plane_rows (data frame 1) (sint (linesize frame 1)) (?W div 2) (?H div 2)"
  let ?V = "plane_rows (data frame 2) (sint (linesize frame 2)) (?W div 2) (?H div 2)"
  note sz = frame_sizes [OF nonneg]
  from run alloc obtain w1 fps1 buf0 buf1 dst1 buf2 dst2 buf3 dst3 written where
    e: "ensure_frame_buf w fps frame = (w1, fps1, True)" and
    c1: "copy_plane buf0 0 (data frame 0) (linesize frame 0)
       (AVFrame.width frame) (AVFrame.height frame) 0 = Some (buf1, dst1)" and
    c2: "copy_plane buf1 dst1 (data frame 1) (linesize frame 1)
       (uv_width frame) (uv_height frame) 0 = Some (buf2, dst2)" and
    c3: "copy_plane buf2 dst2 (data frame 2) (linesize frame 2)
       (uv_width frame) (uv_height frame) 0 = Some (buf3, dst3)" and
    fit: "unat (frame_size frame) \<le> length buf3" and
    sw: "sys_write w1 (fd fps1) (take (unat (frame_size frame)) buf3) = (w', written)" and
    r: "r \<longleftrightarrow> written = frame_size frame"
    by (rule write_copy_steps)
  from copy_plane_rows [OF c1] have
    b1: "buf1 = ?Y @ drop dst1 buf0" and d1: "dst1 = ?W * ?H" and ly: "length ?Y = ?W * ?H"
    by (simp_all add: plane_rows_def)
  from copy_plane_rows [OF c2] have
    b2: "buf2 = take dst1 buf1 @ ?U @ drop dst2 buf1" and
    d2: "dst2 = dst1 + (?W div 2) * (?H div 2)" and lu: "length ?U = (?W div 2) * (?H div 2)"
    by (simp_all add: plane_rows_def sz(1,2))
  from copy_plane_rows [OF c3] have
    b3: "buf3 = take dst2 buf2 @ ?V @ drop dst3 buf2" and
    d3: "dst3 = dst2 + (?W div 2) * (?H div 2)" and lv: "length ?V = (?W div 2) * (?H div 2)"
    by (simp_all add: plane_rows_def sz(1,2))
  have pre: "take (length xs) (xs @ ys) = xs" for xs ys :: "byte list"
    by simp
  have "dst1 = length ?Y" by (simp only: d1 ly)
  then have t1: "take dst1 buf1 = ?Y"
    by (simp only: b1 pre)
  have b2': "buf2 = (?Y @ ?U) @ drop dst2 buf1"
    using b2 by (simp only: t1 append_assoc)
  have "dst2 = length (?Y @ ?U)" by (simp only: d2 d1 ly lu length_append)
  then have t2: "take dst2 buf2 = ?Y @ ?U"
    by (simp only: b2' pre)
  have p: "payload frame = ?Y @ ?U @ ?V"
    by (simp add: payload_def Let_def)
  have lp: "length (payload frame) = unat (frame_size frame)"
    by (simp only: p length_append ly lu lv sz(7) mult_2 add.assoc)
  have "buf3 = payload frame @ drop dst3 buf2"
    using b3 by (simp only: t2 p append_assoc)
  then have "take (length (payload frame)) buf3 = payload frame"
    by (simp only: pre)
  then have "take (unat (frame_size frame)) buf3 = payload frame"
    by (simp only: lp)
  with sw have sw': "sys_write w1 (fd fps1) (payload frame) = (w', written)" by simp
  from ensure_frame_buf_world(4) [OF e] obtain b n where
    "fps1 = fps\<lparr>frame_buf := b, frame_buf_size := n\<rparr>" by blast
  then have "fd fps1 = fd fps" by simp
  with ensure_frame_buf_world(1-3) [OF e] have
    "pipe w1 = pipe w" "calls w1 = calls w" "write_results w1 = write_results w"
    "fd fps1 = fd fps"
    by simp_all
  with sw' r show "\<exists>w1 ret. pipe w1 = pipe w \<and> calls w1 = calls w \<and>
      write_results w1 = write_results w \<and>
      sys_write w1 (fd fps) (payload frame) = (w', ret) \<and> (r \<longleftrightarrow> ret = frame_size frame)"
    by auto
  from lp show "length (payload frame) = unat (frame_size frame)" .
qed

lemma write_copy_True_allocated:
  assumes "write_copy w fps frame = Some (w', fps', True)"
  shows "frame_buf fps' \<noteq> None"
proof -
  obtain w1 fps1 ok where e: "ensure_frame_buf w fps frame = (w1, fps1, ok)"
    by (cases "ensure_frame_buf w fps frame")
  with assms have ok by (auto simp: write_copy_def split: if_splits)
  with assms e show ?thesis
    by (auto simp: write_copy_def Let_def split: option.splits if_splits prod.splits)
qed

lemma load_Some:
  assumes "load p 0 n = Some bs"
  shows "snd p + n \<le> length (fst p)" and "bs = take n (drop (snd p) (fst p))"
  using assms by (auto simp: load_def Let_def split: if_splits)

lemma load_plane_rows:
  assumes "load p 0 (n * h) = Some bs" and "stride = int n"
  shows "bs = plane_rows p stride n h" and "length bs = n * h"
proof -
  from load_Some [OF assms(1)] have fit: "snd p + n * h \<le> length (fst p)"
    and bs: "bs = take (n * h) (drop (snd p) (fst p))"
    by simp_all
  from plane_rows_contiguous [OF fit] bs assms(2) show "bs = plane_rows p stride n h"
    by simp
  from fit bs show "length bs = n * h" by simp
qed

lemma write_direct_offer:
  assumes nonneg: "0 \<le> sint (AVFrame.width frame)" "0 \<le> sint (AVFrame.height frame)"
    and direct: "can_write_direct frame"
    and run: "write_direct w fps frame = Some (w', fps', r)"
  shows "\<exists>iov ret. sys_writev w (fd fps) iov = (w', ret) \<and> concat iov = payload frame \<and>
           (r \<longleftrightarrow> ret = frame_size frame)"
    and "length (payload frame) = unat (frame_size frame)"
    and "fps' = fps"
proof -
  let ?W = "nat (sint (AVFrame.width frame))" and ?H = "nat (sint (AVFrame.height frame))"
  let ?Y = "plane_rows (data frame 0) (sint (linesize frame 0)) ?W ?H"
  let ?U = "plane_rows (data frame 1) (sint (linesize frame 1)) (?W div 2) (?H div 2)"
  let ?V = "plane_rows (data frame 2) (sint (linesize frame 2)) (?W div 2) (?H div 2)"
  note sz = frame_sizes [OF nonneg]
  from run obtain iov0 where l0: "load (data frame 0) 0 (unat (y_size frame)) = Some iov0"
    by (cases "load (data frame 0) 0 (unat (y_size frame))") (simp_all add: write_direct_def)
  from run l0 obtain iov1 where l1: "load (data frame 1) 0 (unat (uv_size frame)) = Some iov1"
    by (cases "load (data frame 1) 0 (unat (uv_size frame))") (simp_all add: write_direct_def)
  from run l0 l1 obtain iov2 where l2: "load (data frame 2) 0 (unat (uv_size frame)) = Some iov2"
    by (cases "load (data frame 2) 0 (unat (uv_size frame))") (simp_all add: write_direct_def)
  obtain w1 ret where sw1: "sys_writev w (fd fps) [iov0, iov1, iov2] = (w1, ret)"
    by (cases "sys_writev w (fd fps) [iov0, iov1, iov2]")
  from run l0 l1 l2 sw1 have "w1 = w'" and r: "r \<longleftrightarrow> ret = frame_size frame" and f: "fps' = fps"
    by (auto simp: write_direct_def split: if_splits)
  with sw1 have sw: "sys_writev w (fd fps) [iov0, iov1, iov2] = (w', ret)" by simp
  from direct nonneg have s0: "sint (linesize frame 0) = int ?W"
    by (simp add: can_write_direct_def)
  from direct sz(1,3) have s1: "sint (linesize frame 1) = int (?W div 2)"
    by (simp add: can_write_direct_def flip: sz(1))
  from direct sz(1,3) have s2: "sint (linesize frame 2) = int (?W div 2)"
    by (simp add: can_write_direct_def flip: sz(1))
  from l0 have l0': "load (data frame 0) 0 (?W * ?H) = Some iov0" by (simp only: sz(5))
  from l1 have l1': "load (data frame 1) 0 ((?W div 2) * (?H div 2)) = Some iov1"
    by (simp only: sz(6))
  from l2 have l2': "load (data frame 2) 0 ((?W div 2) * (?H div 2)) = Some iov2"
    by (simp only: sz(6))
  note load_plane_rows [OF l0' s0] load_plane_rows [OF l1' s1] load_plane_rows [OF l2' s2]
  then have "iov0 = ?Y" and ly: "length iov0 = ?W * ?H"
    and "iov1 = ?U" and lu: "length iov1 = (?W div 2) * (?H div 2)"
    and "iov2 = ?V" and lv: "length iov2 = (?W div 2) * (?H div 2)"
    by blast+
  then have p: "concat [iov0, iov1, iov2] = payload frame"
    by (simp add: payload_def Let_def)
  with sw r show "\<exists>iov ret. sys_writev w (fd fps) iov = (w', ret) \<and> concat iov = payload frame \<and>
           (r \<longleftrightarrow> ret = frame_size frame)"
    by blast
  from p [symmetric] ly lu lv show "length (payload frame) = unat (frame_size frame)"
    by (simp add: sz(7))
  from f show "fps' = fps" .
qed

lemma write_frame_data_offer:
  assumes nonneg: "0 \<le> sint (AVFrame.width frame)" "0 \<le> sint (AVFrame.height frame)"
    and run: "write_frame_data w fps frame = Some (w', fps', r)"
    and alloc: "can_write_direct frame \<or> frame_buf fps' \<noteq> None"
  shows "pipe w' = pipe w @ take (accepted (next_wres w) (length (payload frame))) (payload frame)"
    and "r \<longleftrightarrow> returned (next_wres w) (length (payload frame)) = frame_size frame"
    and "\<exists>c. calls w' = calls w @ [c] \<and> is_write c \<and> (failed_write c \<longleftrightarrow> \<not> r)"
    and "length (payload frame) = unat (frame_size frame)"
proof -
  have "pipe w' = pipe w @ take (accepted (next_wres w) (length (payload frame))) (payload frame) \<and>
    (r \<longleftrightarrow> returned (next_wres w) (length (payload frame)) = frame_size frame) \<and>
    (\<exists>c. calls w' = calls w @ [c] \<and> is_write c \<and> (failed_write c \<longleftrightarrow> \<not> r)) \<and>
    length (payload frame) = unat (frame_size frame)"
  proof (cases "can_write_direct frame")
    case True
    with run have d: "write_direct w fps frame = Some (w', fps', r)"
      by (simp add: write_frame_data_def)
    from write_direct_offer(1) [OF nonneg True d] obtain iov ret where
      sw: "sys_writev w (fd fps) iov = (w', ret)" and p: "concat iov = payload frame" and
      r: "r \<longleftrightarrow> ret = frame_size frame"
      by blast
    note len = write_direct_offer(2) [OF nonneg True d]
    have fs: "of_nat (length (payload frame)) = frame_size frame"
      by (simp only: len of_nat_unat ucast_id)
    from sys_writev_calls [OF sw] r p fs
    have "\<exists>c. calls w' = calls w @ [c] \<and> is_write c \<and> (failed_write c \<longleftrightarrow> \<not> r)"
      by simp
    with sys_writev_pipe [OF sw] sys_writev_ret [OF sw] r p len show ?thesis
      by simp
  next
    case False
    with run have c: "write_copy w fps frame = Some (w', fps', r)"
      by (simp add: write_frame_data_def)
    from False alloc have a: "frame_buf fps' \<noteq> None" by simp
    from write_copy_offer(1) [OF nonneg c a] obtain w1 ret where
      w1: "pipe w1 = pipe w" "calls w1 = calls w" "write_results w1 = write_results w" and
      sw: "sys_write w1 (fd fps) (payload frame) = (w', ret)" and
      r: "r \<longleftrightarrow> ret = frame_size frame"
      by blast
    note len = write_copy_offer(2) [OF nonneg c a]
    have fs: "of_nat (length (payload frame)) = frame_size frame"
      by (simp only: len of_nat_unat ucast_id)
    from w1 have nx: "next_wres w1 = next_wres w" by (simp add: next_wres_def)
    from sys_write_calls [OF sw] r fs w1
    have "\<exists>c. calls w' = calls w @ [c] \<and> is_write c \<and> (failed_write c \<longleftrightarrow> \<not> r)"
      by simp
    with sys_write_pipe [OF sw] sys_write_ret [OF sw] r len w1 nx show ?thesis
      by simp
  qed
  then show "pipe w' = pipe w @ take (accepted (next_wres w) (length (payload frame))) (payload frame)"
    and "r \<longleftrightarrow> returned (next_wres w) (length (payload frame)) = frame_size frame"
    and "\<exists>c. calls w' = calls w @ [c] \<and> is_write c \<and> (failed_write c \<longleftrightarrow> \<not> r)"
    and "length (payload frame) = unat (frame_size frame)"
    by blast+
qed

lemma write_frame_data_True_allocated:
  assumes "write_frame_data w fps frame = Some (w', fps', True)"
  shows "can_write_direct frame \<or> frame_buf fps' \<noteq> None"
  using assms write_copy_True_allocated [of w fps frame w' fps']
  by (auto simp: write_frame_data_def split: if_splits)

lemma payload_written:
  assumes nonneg: "0 \<le> sint (AVFrame.width frame)" "0 \<le> sint (AVFrame.height frame)"
    and run: "write_frame_data w fps frame = Some (w', fps', True)"
  shows "pipe w' = pipe w @ payload frame"
proof -
  note a = write_frame_data_True_allocated [OF run]
  note o = write_frame_data_offer [OF nonneg run a]
  let ?n = "length (payload frame)"
  from o(4) frame_sizes(8) [OF nonneg] have small: "?n < 2 ^ 64 - 1" by simp
  have "of_nat ?n = frame_size frame"
    by (simp only: o(4) of_nat_unat ucast_id)
  with o(2) have "returned (next_wres w) ?n = of_nat ?n" by simp
  with small have "accepted (next_wres w) ?n = ?n"
    by (rule returned_all_accepted)
  with o(1) show ?thesis by simp
qed

subsection \<open>The payload of a frame packet\<close>

lemma length_plane_row_le: "length (plane_row p stride n i) \<le> n"
  by (simp add: plane_row_def)

lemma length_plane_rows_le: "length (plane_rows p stride n h) \<le> n * h"
proof (induction h)
  case 0
  then show ?case by (simp add: plane_rows_def)
next
  case (Suc h)
  with length_plane_row_le [of p stride n h] show ?case
    by (simp add: plane_rows_Suc)
qed

lemma full_plane_rows:
  assumes "length (plane_rows p stride n h) = n * h" and "i < h"
  shows "length (plane_row p stride n i) = n"
  using assms
proof (induction h)
  case 0
  then show ?case by simp
next
  case (Suc h)
  from Suc.prems(1) have "length (plane_rows p stride n h) + length (plane_row p stride n h) = n * h + n"
    by (simp add: plane_rows_Suc)
  with length_plane_rows_le [of p stride n h] length_plane_row_le [of p stride n h]
  have "length (plane_rows p stride n h) = n * h" and "length (plane_row p stride n h) = n"
    by linarith+
  with Suc.IH Suc.prems(2) show ?case
    by (cases "i = h") simp_all
qed

lemma payload_planes:
  assumes "0 \<le> sint (AVFrame.width frame)" and "0 \<le> sint (AVFrame.height frame)"
    and "length (payload frame) = unat (frame_size frame)"
  shows "length (plane_rows (data frame 0) (sint (linesize frame 0))
            (nat (sint (AVFrame.width frame))) (nat (sint (AVFrame.height frame))))
          = nat (sint (AVFrame.width frame)) * nat (sint (AVFrame.height frame))"
    and "length (plane_rows (data frame 1) (sint (linesize frame 1))
            (nat (sint (AVFrame.width frame)) div 2) (nat (sint (AVFrame.height frame)) div 2))
          = (nat (sint (AVFrame.width frame)) div 2) * (nat (sint (AVFrame.height frame)) div 2)"
    and "length (plane_rows (data frame 2) (sint (linesize frame 2))
            (nat (sint (AVFrame.width frame)) div 2) (nat (sint (AVFrame.height frame)) div 2))
          = (nat (sint (AVFrame.width frame)) div 2) * (nat (sint (AVFrame.height frame)) div 2)"
proof -
  let ?W = "nat (sint (AVFrame.width frame))" and ?H = "nat (sint (AVFrame.height frame))"
  let ?Y = "plane_rows (data frame 0) (sint (linesize frame 0)) ?W ?H"
  let ?U = "plane_rows (data frame 1) (sint (linesize frame 1)) (?W div 2) (?H div 2)"
  let ?V = "plane_rows (data frame 2) (sint (linesize frame 2)) (?W div 2) (?H div 2)"
  from assms(3) frame_sizes(7) [OF assms(1,2)]
  have "length ?Y + length ?U + length ?V = ?W * ?H + 2 * ((?W div 2) * (?H div 2))"
    by (simp add: payload_def Let_def)
  with length_plane_rows_le [of "data frame 0" "sint (linesize frame 0)" ?W ?H]
    length_plane_rows_le [of "data frame 1" "sint (linesize frame 1)" "?W div 2" "?H div 2"]
    length_plane_rows_le [of "data frame 2" "sint (linesize frame 2)" "?W div 2" "?H div 2"]
  show "length ?Y = ?W * ?H" and "length ?U = (?W div 2) * (?H div 2)"
    and "length ?V = (?W div 2) * (?H div 2)"
    by linarith+
qed

text \<open>
  Claim C1. For a frame of even width and height, both at least 2, a payload write that
  reports success has appended to the pipe exactly the \<open>height\<close> rows of the Y plane,
  then the \<open>height / 2\<close> rows of the U plane, then those of the V plane, where row \<open>i\<close> of
  a plane is the first \<open>width\<close> (for U and V: \<open>width / 2\<close>) bytes found \<open>i\<close> strides after
  the plane pointer. Every row has its full logical width, nothing of the padding is
  sent, and the bytes sent number \<open>width * height * 3 / 2\<close>. Nothing is assumed of the
  strides.
\<close>

theorem payload_layout:
  assumes "even (sint (AVFrame.width frame))" and "2 \<le> sint (AVFrame.width frame)"
    and "even (sint (AVFrame.height frame))" and "2 \<le> sint (AVFrame.height frame)"
    and "write_frame_data w fps frame = Some (w', fps', True)"
  shows
    "(let W = nat (sint (AVFrame.width frame)); H = nat (sint (AVFrame.height frame));
          Y = map (plane_row (data frame 0) (sint (linesize frame 0)) W) [0..<H];
          U = map (plane_row (data frame 1) (sint (linesize frame 1)) (W div 2)) [0..<H div 2];
          V = map (plane_row (data frame 2) (sint (linesize frame 2)) (W div 2)) [0..<H div 2]
      in pipe w' = pipe w @ concat Y @ concat U @ concat V \<and>
         list_all (\<lambda>row. length row = W) Y \<and>
         list_all (\<lambda>row. length row = W div 2) U \<and>
         list_all (\<lambda>row. length row = W div 2) V \<and>
         2 * length (concat Y @ concat U @ concat V) = 3 * (W * H))"
proof -
  let ?W = "nat (sint (AVFrame.width frame))" and ?H = "nat (sint (AVFrame.height frame))"
  from assms have nonneg: "0 \<le> sint (AVFrame.width frame)" "0 \<le> sint (AVFrame.height frame)"
    by simp_all
  note run = assms(5)
  have p: "pipe w' = pipe w @ payload frame"
    using nonneg run by (rule payload_written)
  have len: "length (payload frame) = unat (frame_size frame)"
    using nonneg run write_frame_data_True_allocated [OF run]
    by (rule write_frame_data_offer(4))
  note pl = payload_planes [OF nonneg len]
  from assms(1,2) have "even ?W" by (simp add: even_nat_iff)
  then have W: "2 * (?W div 2) = ?W" by simp
  from assms(3,4) have "even ?H" by (simp add: even_nat_iff)
  then have H: "2 * (?H div 2) = ?H" by simp
  have "4 * ((?W div 2) * (?H div 2)) = (2 * (?W div 2)) * (2 * (?H div 2))" by simp
  also have "\<dots> = ?W * ?H" by (simp only: W H)
  finally have quarter: "4 * ((?W div 2) * (?H div 2)) = ?W * ?H" .
  have total: "2 * length (payload frame) = 3 * (?W * ?H)"
    using quarter by (simp add: len frame_sizes(7) [OF nonneg])
  have rows: "list_all (\<lambda>row. length row = n) (map (plane_row q s n) [0..<h])"
    if "length (plane_rows q s n h) = n * h" for q s n h
    using full_plane_rows [OF that] by (simp add: list_all_iff)
  from p total rows [OF pl(1)] rows [OF pl(2)] rows [OF pl(3)] show ?thesis
    by (simp add: Let_def payload_def plane_rows_def)
qed

theorem payload_layout_witness:
  "write_frame_data quiet_world open_sink frame_2x2_padded =
     Some (quiet_world\<lparr>calls := [Write 3 [1, 2, 3, 4, 5, 6] 6], pipe := [1, 2, 3, 4, 5, 6]\<rparr>,
           open_sink\<lparr>frame_buf := Some [1, 2, 3, 4, 5, 6], frame_buf_size := 6\<rparr>, True) \<and>
   pipe (quiet_world\<lparr>calls := [Write 3 [1, 2, 3, 4, 5, 6] 6], pipe := [1, 2, 3, 4, 5, 6]\<rparr>) =
     pipe quiet_world @ concat [[1, 2], [3, 4]] @ concat [[5]] @ concat [[6]]"
proof -
  let ?F = frame_2x2_padded
  have run: "write_frame_data quiet_world open_sink ?F =
     Some (quiet_world\<lparr>calls := [Write 3 [1, 2, 3, 4, 5, 6] 6], pipe := [1, 2, 3, 4, 5, 6]\<rparr>,
           open_sink\<lparr>frame_buf := Some [1, 2, 3, 4, 5, 6], frame_buf_size := 6\<rparr>, True)"
    by code_simp
  have d: "even (sint (AVFrame.width ?F))" "2 \<le> sint (AVFrame.width ?F)"
    "even (sint (AVFrame.height ?F))" "2 \<le> sint (AVFrame.height ?F)"
    by (simp_all add: frame_2x2_padded_def)
  have r0: "map (plane_row (data ?F 0) (sint (linesize ?F 0)) (nat (sint (AVFrame.width ?F))))
      [0..<nat (sint (AVFrame.height ?F))] = [[1, 2], [3, 4]]"
    by code_simp
  have r1: "map (plane_row (data ?F 1) (sint (linesize ?F 1)) (nat (sint (AVFrame.width ?F)) div 2))
      [0..<nat (sint (AVFrame.height ?F)) div 2] = [[5]]"
    by code_simp
  have r2: "map (plane_row (data ?F 2) (sint (linesize ?F 2)) (nat (sint (AVFrame.width ?F)) div 2))
      [0..<nat (sint (AVFrame.height ?F)) div 2] = [[6]]"
    by code_simp
  from payload_layout [OF d run] have
    "pipe (quiet_world\<lparr>calls := [Write 3 [1, 2, 3, 4, 5, 6] 6], pipe := [1, 2, 3, 4, 5, 6]\<rparr>) =
       pipe quiet_world @ concat [[1, 2], [3, 4]] @ concat [[5]] @ concat [[6]]"
    unfolding Let_def r0 r1 r2 by (rule conjunct1)
  with run show ?thesis by (rule conjI)
qed

subsection \<open>The two paths write the same bytes\<close>

lemma frame_size_cong:
  assumes "AVFrame.width g = AVFrame.width f" and "AVFrame.height g = AVFrame.height f"
  shows "frame_size g = frame_size f"
  using assms by (simp add: frame_size_def y_size_def uv_size_def uv_width_def uv_height_def)

text \<open>
  Claim C2. Take a frame without padding (every stride is the logical row width, so
  \<^verbatim>\<open>write_frame_data\<close> takes the direct path) and any frame of the same dimensions and
  the same logical pixel content, the frame itself included. From the same state of the
  world and of the sink, the direct path on the first and the copy path on the second
  leave the same bytes in the pipe and report the same result, whatever the kernel does
  with the write, provided the copy path gets its scratch buffer. (Dimensions are not
  negative: a frame has pixels.)
\<close>

theorem direct_path_equals_copy_path:
  assumes "can_write_direct f"
    and "0 \<le> sint (AVFrame.width f)" and "0 \<le> sint (AVFrame.height f)"
    and "AVFrame.width g = AVFrame.width f" and "AVFrame.height g = AVFrame.height f"
    and "payload g = payload f"
    and "write_direct w fps f = Some (w1, fps1, r1)"
    and "write_copy w fps g = Some (w2, fps2, r2)"
    and "frame_buf fps2 \<noteq> None"
  shows "write_frame_data w fps f = write_direct w fps f \<and> pipe w1 = pipe w2 \<and> r1 = r2"
proof -
  from assms(2-5) have gn: "0 \<le> sint (AVFrame.width g)" "0 \<le> sint (AVFrame.height g)"
    by simp_all
  from assms(1) have sel: "write_frame_data w fps f = write_direct w fps f"
    by (simp add: write_frame_data_def)
  from write_direct_offer(1) [OF assms(2,3,1,7)] obtain iov ret where
    d: "sys_writev w (fd fps) iov = (w1, ret)" and p: "concat iov = payload f" and
    r1: "r1 \<longleftrightarrow> ret = frame_size f"
    by blast
  from write_copy_offer(1) [OF gn assms(8,9)] obtain w0 ret' where
    w0: "pipe w0 = pipe w" "write_results w0 = write_results w" and
    c: "sys_write w0 (fd fps) (payload g) = (w2, ret')" and
    r2: "r2 \<longleftrightarrow> ret' = frame_size g"
    by blast
  from w0 have nx: "next_wres w0 = next_wres w" by (simp add: next_wres_def)
  from sys_writev_pipe [OF d] sys_write_pipe [OF c] p assms(6) w0 nx have "pipe w1 = pipe w2"
    by simp
  moreover from sys_writev_ret [OF d] sys_write_ret [OF c] p assms(6) nx have "ret = ret'"
    by simp
  with r1 r2 frame_size_cong [OF assms(4,5)] have "r1 = r2" by simp
  ultimately show ?thesis using sel by simp
qed

theorem direct_path_equals_copy_path_witness:
  "(\<exists>w1 fps1 w2 fps2.
      write_direct (quiet_world\<lparr>write_results := [Partial 5]\<rparr>) open_sink frame_2x2 =
        Some (w1, fps1, False) \<and>
      write_copy (quiet_world\<lparr>write_results := [Partial 5]\<rparr>) open_sink frame_2x2_padded =
        Some (w2, fps2, False) \<and>
      pipe w1 = [1, 2, 3, 4, 5] \<and> pipe w2 = [1, 2, 3, 4, 5]) \<and>
   (\<exists>w1 fps1 w2 fps2.
      write_direct quiet_world open_sink frame_2x2 = Some (w1, fps1, True) \<and>
      write_copy quiet_world open_sink frame_2x2 = Some (w2, fps2, True) \<and>
      pipe w1 = [1, 2, 3, 4, 5, 6] \<and> pipe w2 = [1, 2, 3, 4, 5, 6])"
proof -
  let ?w = "quiet_world\<lparr>write_results := [Partial 5]\<rparr>"
  let ?w1 = "quiet_world\<lparr>calls := [Writev 3 [[1, 2, 3, 4], [5], [6]] 5], pipe := [1, 2, 3, 4, 5]\<rparr>"
  let ?w2 = "quiet_world\<lparr>calls := [Write 3 [1, 2, 3, 4, 5, 6] 5], pipe := [1, 2, 3, 4, 5]\<rparr>"
  let ?s2 = "open_sink\<lparr>frame_buf := Some [1, 2, 3, 4, 5, 6], frame_buf_size := 6\<rparr>"
  let ?v1 = "quiet_world\<lparr>calls := [Writev 3 [[1, 2, 3, 4], [5], [6]] 6], pipe := [1, 2, 3, 4, 5, 6]\<rparr>"
  let ?v2 = "quiet_world\<lparr>calls := [Write 3 [1, 2, 3, 4, 5, 6] 6], pipe := [1, 2, 3, 4, 5, 6]\<rparr>"
  have f: "can_write_direct frame_2x2" "0 \<le> sint (AVFrame.width frame_2x2)"
    "0 \<le> sint (AVFrame.height frame_2x2)"
    by code_simp+
  have g: "AVFrame.width frame_2x2_padded = AVFrame.width frame_2x2"
    "AVFrame.height frame_2x2_padded = AVFrame.height frame_2x2"
    "payload frame_2x2_padded = payload frame_2x2"
    by code_simp+
  have d: "write_direct ?w open_sink frame_2x2 = Some (?w1, open_sink, False)"
    by code_simp
  have c: "write_copy ?w open_sink frame_2x2_padded = Some (?w2, ?s2, False)"
    by code_simp
  have a: "frame_buf ?s2 \<noteq> None" by simp
  have d': "write_direct quiet_world open_sink frame_2x2 = Some (?v1, open_sink, True)"
    by code_simp
  have c': "write_copy quiet_world open_sink frame_2x2 = Some (?v2, ?s2, True)"
    by code_simp
  have p1: "pipe ?w1 = [1, 2, 3, 4, 5]" and p2: "pipe ?v1 = [1, 2, 3, 4, 5, 6]" by simp_all
  from direct_path_equals_copy_path [OF f g d c a] p1 have "pipe ?w2 = [1, 2, 3, 4, 5]"
    by simp
  with d c p1 have first: "\<exists>w1 fps1 w2 fps2.
      write_direct ?w open_sink frame_2x2 = Some (w1, fps1, False) \<and>
      write_copy ?w open_sink frame_2x2_padded = Some (w2, fps2, False) \<and>
      pipe w1 = [1, 2, 3, 4, 5] \<and> pipe w2 = [1, 2, 3, 4, 5]"
    by blast
  from direct_path_equals_copy_path [OF f refl refl refl d' c' a] p2
  have "pipe ?v2 = [1, 2, 3, 4, 5, 6]"
    by simp
  with d' c' p2 have second: "\<exists>w1 fps1 w2 fps2.
      write_direct quiet_world open_sink frame_2x2 = Some (w1, fps1, True) \<and>
      write_copy quiet_world open_sink frame_2x2 = Some (w2, fps2, True) \<and>
      pipe w1 = [1, 2, 3, 4, 5, 6] \<and> pipe w2 = [1, 2, 3, 4, 5, 6]"
    by blast
  from first second show ?thesis by (rule conjI)
qed

subsection \<open>The steps of a push\<close>

lemma write_frame_data_fields:
  assumes "write_frame_data w fps frame = Some (w', fps', r)"
  shows "\<exists>b n. fps' = fps\<lparr>frame_buf := b, frame_buf_size := n\<rparr>"
proof (cases "can_write_direct frame")
  case True
  with assms have d: "write_direct w fps frame = Some (w', fps', r)"
    by (simp add: write_frame_data_def)
  then have "fps' = fps"
    by (auto simp: write_direct_def split: option.splits prod.splits if_splits)
  then have "fps' = fps\<lparr>frame_buf := frame_buf fps, frame_buf_size := frame_buf_size fps\<rparr>"
    by simp
  then show ?thesis by blast
next
  case False
  with assms have c: "write_copy w fps frame = Some (w', fps', r)"
    by (simp add: write_frame_data_def)
  obtain w1 fps1 ok where e: "ensure_frame_buf w fps frame = (w1, fps1, ok)"
    by (cases "ensure_frame_buf w fps frame")
  from ensure_frame_buf_world(4) [OF e] obtain b n where
    f1: "fps1 = fps\<lparr>frame_buf := b, frame_buf_size := n\<rparr>" by blast
  from c e have "fps' = fps1 \<or> (\<exists>b'. fps' = fps1\<lparr>frame_buf := b'\<rparr>)"
    by (auto simp: write_copy_def Let_def split: option.splits prod.splits if_splits)
  then show ?thesis
  proof
    assume "fps' = fps1"
    with f1 show ?thesis by blast
  next
    assume "\<exists>b'. fps' = fps1\<lparr>frame_buf := b'\<rparr>"
    then obtain b' where "fps' = fps1\<lparr>frame_buf := b'\<rparr>" ..
    with f1 have "fps' = fps\<lparr>frame_buf := b', frame_buf_size := n\<rparr>" by simp
    then show ?thesis by blast
  qed
qed

text \<open>
  The header step of a push (lines 214 to 220): the header is written when the frame's
  dimensions are not the stored ones.
\<close>

lemma push_cases [consumes 3, case_names header_failed pts_failed data]:
  assumes "0 \<le> sint (fd fps)" and "\<not> stopped fps"
    and "sc_frame_pipe_sink_push av w fps frame = Some (w', fps', r)"
  obtains
    (header_failed)
      "AVFrame.width frame \<noteq> width fps \<or> AVFrame.height frame \<noteq> height fps"
      "write_header w fps (AVFrame.width frame) (AVFrame.height frame) = (w', fps, False)"
      "fps' = fps\<lparr>stopped := True\<rparr>" "\<not> r"
  | (pts_failed) w1 fps1 where
      "(if AVFrame.width frame \<noteq> width fps \<or> AVFrame.height frame \<noteq> height fps
        then write_header w fps (AVFrame.width frame) (AVFrame.height frame)
        else (w, fps, True)) = (w1, fps1, True)"
      "write_pts w1 fps1 (frame_pts_us av (time_base fps1) frame) = (w', False)"
      "fps' = fps1\<lparr>stopped := True\<rparr>" "\<not> r"
  | (data) w1 fps1 w2 fps3 where
      "(if AVFrame.width frame \<noteq> width fps \<or> AVFrame.height frame \<noteq> height fps
        then write_header w fps (AVFrame.width frame) (AVFrame.height frame)
        else (w, fps, True)) = (w1, fps1, True)"
      "write_pts w1 fps1 (frame_pts_us av (time_base fps1) frame) = (w2, True)"
      "write_frame_data w2 fps1 frame = Some (w', fps3, r)"
      "fps' = (if r then fps3 else fps3\<lparr>stopped := True\<rparr>)"
proof -
  let ?hdr = "if AVFrame.width frame \<noteq> width fps \<or> AVFrame.height frame \<noteq> height fps
        then write_header w fps (AVFrame.width frame) (AVFrame.height frame)
        else (w, fps, True)"
  obtain w1 fps1 hok where h: "?hdr = (w1, fps1, hok)" by (cases ?hdr)
  show thesis
  proof (cases hok)
    case False
    with h have differ: "AVFrame.width frame \<noteq> width fps \<or> AVFrame.height frame \<noteq> height fps"
      by (auto split: if_splits)
    with h False have wh: "write_header w fps (AVFrame.width frame) (AVFrame.height frame) = (w1, fps1, False)"
      by simp
    from write_header_False(1) [OF wh] have "fps1 = fps" .
    moreover from assms h False have "w' = w1" "fps' = fps1\<lparr>stopped := True\<rparr>" "\<not> r"
      by (simp_all add: sc_frame_pipe_sink_push_def)
    ultimately show ?thesis using differ wh by (intro header_failed) simp_all
  next
    case True
    obtain w2 pok where p: "write_pts w1 fps1 (frame_pts_us av (time_base fps1) frame) = (w2, pok)"
      by (cases "write_pts w1 fps1 (frame_pts_us av (time_base fps1) frame)")
    show ?thesis
    proof (cases pok)
      case False
      with assms h True p have "w' = w2" "fps' = fps1\<lparr>stopped := True\<rparr>" "\<not> r"
        by (simp_all add: sc_frame_pipe_sink_push_def Let_def)
      with h True p False show ?thesis by (intro pts_failed) simp_all
    next
      case pT: True
      with assms h True p obtain w3 fps3 dok where
        d: "write_frame_data w2 fps1 frame = Some (w3, fps3, dok)"
        by (cases "write_frame_data w2 fps1 frame")
           (auto simp: sc_frame_pipe_sink_push_def Let_def)
      with assms h True p pT have "w' = w3" "r = dok"
        "fps' = (if dok then fps3 else fps3\<lparr>stopped := True\<rparr>)"
        by (auto simp: sc_frame_pipe_sink_push_def Let_def split: if_splits)
      with h True p pT d show ?thesis by (intro data) simp_all
    qed
  qed
qed

lemma header_step_True:
  assumes "(if AVFrame.width frame \<noteq> width fps \<or> AVFrame.height frame \<noteq> height fps
        then write_header w fps (AVFrame.width frame) (AVFrame.height frame)
        else (w, fps, True)) = (w1, fps1, True)"
  shows "pipe w1 = pipe w @
           (if (AVFrame.width frame, AVFrame.height frame) \<noteq> (width fps, height fps)
            then header_bytes (AVFrame.width frame) (AVFrame.height frame) else [])"
    and "calls w1 = calls w @
           (if (AVFrame.width frame, AVFrame.height frame) \<noteq> (width fps, height fps)
            then [Write (fd fps) (header_bytes (AVFrame.width frame) (AVFrame.height frame)) 12]
            else [])"
    and "fps1 = fps\<lparr>width := AVFrame.width frame, height := AVFrame.height frame\<rparr>"
    and "write_results w1 =
           (if (AVFrame.width frame, AVFrame.height frame) \<noteq> (width fps, height fps)
            then tl (write_results w) else write_results w)"
proof -
  have "pipe w1 = pipe w @
           (if (AVFrame.width frame, AVFrame.height frame) \<noteq> (width fps, height fps)
            then header_bytes (AVFrame.width frame) (AVFrame.height frame) else []) \<and>
     calls w1 = calls w @
           (if (AVFrame.width frame, AVFrame.height frame) \<noteq> (width fps, height fps)
            then [Write (fd fps) (header_bytes (AVFrame.width frame) (AVFrame.height frame)) 12]
            else []) \<and>
     fps1 = fps\<lparr>width := AVFrame.width frame, height := AVFrame.height frame\<rparr> \<and>
     write_results w1 =
           (if (AVFrame.width frame, AVFrame.height frame) \<noteq> (width fps, height fps)
            then tl (write_results w) else write_results w)"
  proof (cases "AVFrame.width frame \<noteq> width fps \<or> AVFrame.height frame \<noteq> height fps")
    case True
    with assms have wh:
      "write_header w fps (AVFrame.width frame) (AVFrame.height frame) = (w1, fps1, True)"
      by simp
    from True write_header_True(1-4) [OF wh] show ?thesis by auto
  next
    case False
    with assms have "w1 = w" "fps1 = fps" by simp_all
    with False show ?thesis by auto
  qed
  then show "pipe w1 = pipe w @
           (if (AVFrame.width frame, AVFrame.height frame) \<noteq> (width fps, height fps)
            then header_bytes (AVFrame.width frame) (AVFrame.height frame) else [])"
    and "calls w1 = calls w @
           (if (AVFrame.width frame, AVFrame.height frame) \<noteq> (width fps, height fps)
            then [Write (fd fps) (header_bytes (AVFrame.width frame) (AVFrame.height frame)) 12]
            else [])"
    and "fps1 = fps\<lparr>width := AVFrame.width frame, height := AVFrame.height frame\<rparr>"
    and "write_results w1 =
           (if (AVFrame.width frame, AVFrame.height frame) \<noteq> (width fps, height fps)
            then tl (write_results w) else write_results w)"
    by blast+
qed

lemma push_True:
  assumes streaming: "0 \<le> sint (fd fps)" "\<not> stopped fps"
    and nonneg: "0 \<le> sint (AVFrame.width frame)" "0 \<le> sint (AVFrame.height frame)"
    and run: "sc_frame_pipe_sink_push av w fps frame = Some (w', fps', True)"
  shows "pipe w' = pipe w @
           (if (AVFrame.width frame, AVFrame.height frame) \<noteq> (width fps, height fps)
            then header_bytes (AVFrame.width frame) (AVFrame.height frame) else []) @
           pts_bytes (frame_pts_us av (time_base fps) frame) @ payload frame"
    and "\<exists>b n. fps' = fps\<lparr>width := AVFrame.width frame, height := AVFrame.height frame,
                             frame_buf := b, frame_buf_size := n\<rparr>"
    and "\<exists>c. calls w' = calls w @
           (if (AVFrame.width frame, AVFrame.height frame) \<noteq> (width fps, height fps)
            then [Write (fd fps) (header_bytes (AVFrame.width frame) (AVFrame.height frame)) 12]
            else []) @
           [Write (fd fps) (pts_bytes (frame_pts_us av (time_base fps) frame)) 8, c] \<and>
           is_write c \<and> \<not> failed_write c"
proof -
  have "(pipe w' = pipe w @
           (if (AVFrame.width frame, AVFrame.height frame) \<noteq> (width fps, height fps)
            then header_bytes (AVFrame.width frame) (AVFrame.height frame) else []) @
           pts_bytes (frame_pts_us av (time_base fps) frame) @ payload frame) \<and>
        (\<exists>b n. fps' = fps\<lparr>width := AVFrame.width frame, height := AVFrame.height frame,
                             frame_buf := b, frame_buf_size := n\<rparr>) \<and>
        (\<exists>c. calls w' = calls w @
           (if (AVFrame.width frame, AVFrame.height frame) \<noteq> (width fps, height fps)
            then [Write (fd fps) (header_bytes (AVFrame.width frame) (AVFrame.height frame)) 12]
            else []) @
           [Write (fd fps) (pts_bytes (frame_pts_us av (time_base fps) frame)) 8, c] \<and>
           is_write c \<and> \<not> failed_write c)"
    using streaming run
  proof (cases rule: push_cases)
    case header_failed
    then show ?thesis by simp
  next
    case (pts_failed w1 fps1)
    then show ?thesis by simp
  next
    case (data w1 fps1 w2 fps3)
    note h = header_step_True [OF data(1)]
    from h(3) have f1: "fd fps1 = fd fps" "time_base fps1 = time_base fps" by simp_all
    note p = write_pts_True [OF data(2)]
    note d = payload_written [OF nonneg data(3)]
    from data(4) have f3: "fps' = fps3" by simp
    from write_frame_data_fields [OF data(3)] obtain b n where
      "fps3 = fps1\<lparr>frame_buf := b, frame_buf_size := n\<rparr>" by blast
    with h(3) f3 have "fps' = fps\<lparr>width := AVFrame.width frame, height := AVFrame.height frame,
                               frame_buf := b, frame_buf_size := n\<rparr>"
      by simp
    then have B: "\<exists>b n. fps' = fps\<lparr>width := AVFrame.width frame, height := AVFrame.height frame,
                             frame_buf := b, frame_buf_size := n\<rparr>"
      by blast
    from h(1) p(1) d f1 have A: "pipe w' = pipe w @
           (if (AVFrame.width frame, AVFrame.height frame) \<noteq> (width fps, height fps)
            then header_bytes (AVFrame.width frame) (AVFrame.height frame) else []) @
           pts_bytes (frame_pts_us av (time_base fps) frame) @ payload frame"
      by simp
    from write_frame_data_offer(3) [OF nonneg data(3) write_frame_data_True_allocated [OF data(3)]]
    obtain c where "calls w' = calls w2 @ [c]" "is_write c" "\<not> failed_write c" by auto
    with h(2) p(2) f1 have C: "\<exists>c. calls w' = calls w @
           (if (AVFrame.width frame, AVFrame.height frame) \<noteq> (width fps, height fps)
            then [Write (fd fps) (header_bytes (AVFrame.width frame) (AVFrame.height frame)) 12]
            else []) @
           [Write (fd fps) (pts_bytes (frame_pts_us av (time_base fps) frame)) 8, c] \<and>
           is_write c \<and> \<not> failed_write c"
      by simp
    from A B C show ?thesis by (intro conjI)
  qed
  then show "pipe w' = pipe w @
           (if (AVFrame.width frame, AVFrame.height frame) \<noteq> (width fps, height fps)
            then header_bytes (AVFrame.width frame) (AVFrame.height frame) else []) @
           pts_bytes (frame_pts_us av (time_base fps) frame) @ payload frame"
    and "\<exists>b n. fps' = fps\<lparr>width := AVFrame.width frame, height := AVFrame.height frame,
                             frame_buf := b, frame_buf_size := n\<rparr>"
    and "\<exists>c. calls w' = calls w @
           (if (AVFrame.width frame, AVFrame.height frame) \<noteq> (width fps, height fps)
            then [Write (fd fps) (header_bytes (AVFrame.width frame) (AVFrame.height frame)) 12]
            else []) @
           [Write (fd fps) (pts_bytes (frame_pts_us av (time_base fps) frame)) 8, c] \<and>
           is_write c \<and> \<not> failed_write c"
    by blast+
qed

lemma push_all_stream:
  assumes "0 \<le> sint (fd fps)" and "\<not> stopped fps"
    and "list_all (\<lambda>f. 0 \<le> sint (AVFrame.width f) \<and> 0 \<le> sint (AVFrame.height f)) frames"
    and "push_all av w fps frames = Some (w', fps', rs)" and "list_all (\<lambda>r. r) rs"
  shows "pipe w' = pipe w @ expected_stream av (time_base fps) (width fps, height fps) frames \<and>
         0 \<le> sint (fd fps') \<and> \<not> stopped fps' \<and> length rs = length frames \<and>
         (frames \<noteq> [] \<longrightarrow> width fps' = AVFrame.width (last frames) \<and>
                           height fps' = AVFrame.height (last frames))"
  using assms
proof (induction frames arbitrary: w fps rs)
  case Nil
  then show ?case by simp
next
  case (Cons f frames)
  from Cons.prems(4) obtain w1 fps1 r rs' where
    p: "sc_frame_pipe_sink_push av w fps f = Some (w1, fps1, r)" and
    rest: "push_all av w1 fps1 frames = Some (w', fps', rs')" and rs: "rs = r # rs'"
    by (auto split: option.splits)
  from Cons.prems(5) rs have r: r and rs': "list_all (\<lambda>r. r) rs'" by simp_all
  from Cons.prems(3) have nonneg: "0 \<le> sint (AVFrame.width f)" "0 \<le> sint (AVFrame.height f)"
    and tl: "list_all (\<lambda>f. 0 \<le> sint (AVFrame.width f) \<and> 0 \<le> sint (AVFrame.height f)) frames"
    by simp_all
  from p r have p': "sc_frame_pipe_sink_push av w fps f = Some (w1, fps1, True)" by simp
  note t = push_True [OF Cons.prems(1,2) nonneg p']
  from t(2) obtain b n where
    f1: "fps1 = fps\<lparr>width := AVFrame.width f, height := AVFrame.height f,
                     frame_buf := b, frame_buf_size := n\<rparr>"
    by blast
  with Cons.prems(1,2) have s1: "0 \<le> sint (fd fps1)" "\<not> stopped fps1" by simp_all
  from f1 have d1: "time_base fps1 = time_base fps" "width fps1 = AVFrame.width f"
    "height fps1 = AVFrame.height f"
    by simp_all
  from Cons.IH [OF s1 tl rest rs'] d1 have
    ih: "pipe w' = pipe w1 @
           expected_stream av (time_base fps) (AVFrame.width f, AVFrame.height f) frames"
      "0 \<le> sint (fd fps')" "\<not> stopped fps'" "length rs' = length frames"
      "frames \<noteq> [] \<longrightarrow> width fps' = AVFrame.width (last frames) \<and>
                           height fps' = AVFrame.height (last frames)"
    by simp_all
  have last: "width fps' = AVFrame.width (last (f # frames)) \<and>
      height fps' = AVFrame.height (last (f # frames))"
  proof (cases frames)
    case Nil
    with rest d1 show ?thesis by simp
  next
    case (Cons g gs)
    with ih(5) show ?thesis by simp
  qed
  from t(1) ih(1) have "pipe w' = pipe w @
      expected_stream av (time_base fps) (width fps, height fps) (f # frames)"
    by simp
  with ih(2,3,4) last rs show ?case by simp
qed

subsection \<open>Headers in a sequence of pushes\<close>

lemma open_True:
  assumes "sc_frame_pipe_sink_open mk op w fps tb = (w', fps', True)"
  shows "0 \<le> sint (fd fps')" and "\<not> stopped fps'" and "width fps' = 0" and "height fps' = 0"
    and "time_base fps' = tb"
  using assms by (auto simp: sc_frame_pipe_sink_open_def Let_def split: if_splits)

text \<open>
  Claim C3. Frames of even width and height, both at least 2, are pushed one after the
  other on a streaming sink, and every push reports success. Then the pipe has received
  exactly the stream the reader expects: for each frame in turn a 12-byte dimension
  packet exactly when its dimensions are not those of the last dimension packet (the
  stored ones), directly followed by its frame packet (timestamp, then payload). After a
  successful open the stored dimensions are 0 by 0, so the stream begins with the
  dimension packet of the first frame. After the pushes the stored dimensions are those
  of the last frame, and whenever \<^verbatim>\<open>write_header\<close> reports success it has sent the 12
  bytes and stored the dimensions it was given; when it reports failure the stored
  dimensions are unchanged.
\<close>

theorem header_exactly_on_new_dimensions:
  "(0 \<le> sint (fd fps) \<and> \<not> stopped fps \<and>
    list_all (\<lambda>f. even (sint (AVFrame.width f)) \<and> 2 \<le> sint (AVFrame.width f) \<and>
                   even (sint (AVFrame.height f)) \<and> 2 \<le> sint (AVFrame.height f)) frames \<and>
    push_all av w fps frames = Some (w', fps', rs) \<and> list_all (\<lambda>r. r) rs \<longrightarrow>
      pipe w' = pipe w @ expected_stream av (time_base fps) (width fps, height fps) frames \<and>
      (frames \<noteq> [] \<longrightarrow>
         width fps' = AVFrame.width (last frames) \<and> height fps' = AVFrame.height (last frames) \<and>
         (width fps = 0 \<and> height fps = 0 \<longrightarrow>
            take 12 (expected_stream av (time_base fps) (width fps, height fps) frames) =
              header_bytes (AVFrame.width (hd frames)) (AVFrame.height (hd frames))))) \<and>
   (sc_frame_pipe_sink_open mk op wa fpsa tb = (wb, fpsb, True) \<longrightarrow>
      0 \<le> sint (fd fpsb) \<and> \<not> stopped fpsb \<and> width fpsb = 0 \<and> height fpsb = 0) \<and>
   (write_header wc fpsc a b = (wd, fpsd, True) \<longrightarrow>
      pipe wd = pipe wc @ header_bytes a b \<and> length (header_bytes a b) = 12 \<and>
      width fpsd = a \<and> height fpsd = b) \<and>
   (write_header wc fpsc a b = (wd, fpsd, False) \<longrightarrow> fpsd = fpsc)"
proof (intro conjI impI)
  assume a: "0 \<le> sint (fd fps) \<and> \<not> stopped fps \<and>
    list_all (\<lambda>f. even (sint (AVFrame.width f)) \<and> 2 \<le> sint (AVFrame.width f) \<and>
                   even (sint (AVFrame.height f)) \<and> 2 \<le> sint (AVFrame.height f)) frames \<and>
    push_all av w fps frames = Some (w', fps', rs) \<and> list_all (\<lambda>r. r) rs"
  then have nonneg:
    "list_all (\<lambda>f. 0 \<le> sint (AVFrame.width f) \<and> 0 \<le> sint (AVFrame.height f)) frames"
    by (auto simp: list_all_iff)
  from a have "0 \<le> sint (fd fps)" "\<not> stopped fps" "push_all av w fps frames = Some (w', fps', rs)"
    "list_all (\<lambda>r. r) rs"
    by simp_all
  note s = push_all_stream [OF this(1,2) nonneg this(3,4)]
  from s show "pipe w' = pipe w @ expected_stream av (time_base fps) (width fps, height fps) frames"
    by simp
  {
    assume ne: "frames \<noteq> []"
    with s show "width fps' = AVFrame.width (last frames)"
      and "height fps' = AVFrame.height (last frames)"
      by simp_all
    assume z: "width fps = 0 \<and> height fps = 0"
    from ne obtain f fs where fr: "frames = f # fs" by (cases frames) auto
    with a have "2 \<le> sint (AVFrame.width f)" by simp
    then have "AVFrame.width f \<noteq> 0" by auto
    with z fr show "take 12 (expected_stream av (time_base fps) (width fps, height fps) frames) =
        header_bytes (AVFrame.width (hd frames)) (AVFrame.height (hd frames))"
      by (simp add: length_header_bytes)
  }
next
  assume "sc_frame_pipe_sink_open mk op wa fpsa tb = (wb, fpsb, True)"
  from open_True [OF this]
  show "0 \<le> sint (fd fpsb)" "\<not> stopped fpsb" "width fpsb = 0" "height fpsb = 0"
    by simp_all
next
  assume "write_header wc fpsc a b = (wd, fpsd, True)"
  from write_header_True [OF this]
  show "pipe wd = pipe wc @ header_bytes a b" "width fpsd = a" "height fpsd = b"
    by simp_all
  show "length (header_bytes a b) = 12" by (rule length_header_bytes)
next
  assume "write_header wc fpsc a b = (wd, fpsd, False)"
  from write_header_False(1) [OF this] show "fpsd = fpsc" .
qed

theorem header_exactly_on_new_dimensions_witness:
  "\<exists>w' fps'.
     push_all rescale_seconds quiet_world open_sink
       [frame_2x2_padded, frame_2x2, frame_4x2, frame_2x2] =
       Some (w', fps', [True, True, True, True]) \<and>
     pipe w' =
       [0x59, 0x55, 0x56, 0x34, 2, 0, 0, 0, 2, 0, 0, 0] @ [0, 0, 0, 0, 0, 0, 0, 0] @
         [1, 2, 3, 4, 5, 6] @
       [0, 0, 0, 0, 0, 0, 0, 0] @ [1, 2, 3, 4, 5, 6] @
       [0x59, 0x55, 0x56, 0x34, 4, 0, 0, 0, 2, 0, 0, 0] @ [128, 132, 30, 0, 0, 0, 0, 0] @
         [11, 12, 13, 14, 15, 16, 17, 18, 21, 22, 31, 32] @
       [0x59, 0x55, 0x56, 0x34, 2, 0, 0, 0, 2, 0, 0, 0] @ [0, 0, 0, 0, 0, 0, 0, 0] @
         [1, 2, 3, 4, 5, 6] \<and>
     width fps' = 2 \<and> height fps' = 2"
proof -
  let ?frames = "[frame_2x2_padded, frame_2x2, frame_4x2, frame_2x2]"
  let ?bytes = "[0x59, 0x55, 0x56, 0x34, 2, 0, 0, 0, 2, 0, 0, 0] @ [0, 0, 0, 0, 0, 0, 0, 0] @
         [1, 2, 3, 4, 5, 6] @
       [0, 0, 0, 0, 0, 0, 0, 0] @ [1, 2, 3, 4, 5, 6] @
       [0x59, 0x55, 0x56, 0x34, 4, 0, 0, 0, 2, 0, 0, 0] @ [128, 132, 30, 0, 0, 0, 0, 0] @
         [11, 12, 13, 14, 15, 16, 17, 18, 21, 22, 31, 32] @
       [0x59, 0x55, 0x56, 0x34, 2, 0, 0, 0, 2, 0, 0, 0] @ [0, 0, 0, 0, 0, 0, 0, 0] @
         [1, 2, 3, 4, 5, 6 :: byte]"
  have "case push_all rescale_seconds quiet_world open_sink ?frames of
          None \<Rightarrow> False | Some (w', fps', rs) \<Rightarrow> rs = [True, True, True, True]"
    by code_simp
  then obtain w' fps' where
    run: "push_all rescale_seconds quiet_world open_sink ?frames =
            Some (w', fps', [True, True, True, True])"
    by (auto split: option.splits)
  have s: "0 \<le> sint (fd open_sink)" "\<not> stopped open_sink"
    by (simp_all add: open_sink_def)
  have fr: "list_all (\<lambda>f. even (sint (AVFrame.width f)) \<and> 2 \<le> sint (AVFrame.width f) \<and>
                   even (sint (AVFrame.height f)) \<and> 2 \<le> sint (AVFrame.height f)) ?frames"
    by (simp add: frame_2x2_padded_def frame_2x2_def frame_4x2_def)
  have ok: "list_all (\<lambda>r. r) [True, True, True, True]" by simp
  have e: "expected_stream rescale_seconds (time_base open_sink)
             (width open_sink, height open_sink) ?frames = ?bytes"
    by code_simp
  have l: "AVFrame.width (last ?frames) = 2" "AVFrame.height (last ?frames) = 2"
    by (simp_all add: frame_2x2_def)
  have q: "pipe quiet_world = []" by (simp add: quiet_world_def)
  from header_exactly_on_new_dimensions [THEN conjunct1, rule_format,
      where fps = open_sink and frames = ?frames and av = rescale_seconds and w = quiet_world
        and w' = w' and fps' = fps' and rs = "[True, True, True, True]"]
    s fr run ok
  have "pipe w' = pipe quiet_world @ expected_stream rescale_seconds (time_base open_sink)
             (width open_sink, height open_sink) ?frames"
    and "width fps' = AVFrame.width (last ?frames)"
    and "height fps' = AVFrame.height (last ?frames)"
    by blast+
  then have "pipe w' = ?bytes" "width fps' = 2" "height fps' = 2"
    by (simp_all only: e l q append_Nil)
  with run show ?thesis by blast
qed

subsection \<open>The system calls and the scratch buffer of a payload write\<close>

lemma load_length:
  assumes "load p off n = Some bs"
  shows "length bs = n"
  using assms by (auto simp: load_def Let_def split: if_splits)

lemma write_direct_call:
  assumes "write_direct w fps frame = Some (w', fps', r)"
  shows "\<exists>c. calls w' = calls w @ [c] \<and> is_write c \<and> (failed_write c \<longleftrightarrow> \<not> r)"
    and "fps' = fps"
proof -
  from assms obtain iov0 where l0: "load (data frame 0) 0 (unat (y_size frame)) = Some iov0"
    by (cases "load (data frame 0) 0 (unat (y_size frame))") (simp_all add: write_direct_def)
  from assms l0 obtain iov1 where l1: "load (data frame 1) 0 (unat (uv_size frame)) = Some iov1"
    by (cases "load (data frame 1) 0 (unat (uv_size frame))") (simp_all add: write_direct_def)
  from assms l0 l1 obtain iov2 where l2: "load (data frame 2) 0 (unat (uv_size frame)) = Some iov2"
    by (cases "load (data frame 2) 0 (unat (uv_size frame))") (simp_all add: write_direct_def)
  obtain w1 ret where sw: "sys_writev w (fd fps) [iov0, iov1, iov2] = (w1, ret)"
    by (cases "sys_writev w (fd fps) [iov0, iov1, iov2]")
  from assms l0 l1 l2 sw have w1: "w1 = w'" and r: "r \<longleftrightarrow> ret = frame_size frame" and f: "fps' = fps"
    by (auto simp: write_direct_def split: if_splits)
  have "(of_nat (length (concat [iov0, iov1, iov2])) :: size_t) =
      of_nat (unat (y_size frame)) + of_nat (unat (uv_size frame)) + of_nat (unat (uv_size frame))"
    by (simp add: load_length [OF l0] load_length [OF l1] load_length [OF l2])
  also have "\<dots> = frame_size frame"
    by (simp only: of_nat_unat ucast_id frame_size_def) simp
  finally have "failed_write (Writev (fd fps) [iov0, iov1, iov2] ret) \<longleftrightarrow> \<not> r"
    using r by simp
  with sys_writev_calls [OF sw] w1
  show "\<exists>c. calls w' = calls w @ [c] \<and> is_write c \<and> (failed_write c \<longleftrightarrow> \<not> r)"
    by auto
  from f show "fps' = fps" .
qed

lemma write_copy_unallocated:
  assumes "write_copy w fps frame = Some (w', fps', r)" and "frame_buf fps' = None"
  shows "\<not> r" and "calls w' = calls w" and "pipe w' = pipe w"
    and "frame_buf_size fps' = frame_buf_size fps"
proof -
  obtain w1 fps1 ok where e: "ensure_frame_buf w fps frame = (w1, fps1, ok)"
    by (cases "ensure_frame_buf w fps frame")
  have nok: "\<not> ok"
  proof
    assume ok
    with assms(1) e have "\<exists>b. fps' = fps1\<lparr>frame_buf := Some b\<rparr>"
      by (auto simp: write_copy_def Let_def split: option.splits prod.splits if_splits)
    with assms(2) show False by auto
  qed
  with assms(1) e have res: "w' = w1" "fps' = fps1" "\<not> r"
    by (simp_all add: write_copy_def)
  from res show "\<not> r" by simp
  from res ensure_frame_buf_world(1,2) [OF e] show "calls w' = calls w" "pipe w' = pipe w"
    by simp_all
  obtain w2 blk where m: "sys_malloc w (frame_size frame) = (w2, blk)"
    by (cases "sys_malloc w (frame_size frame)")
  from e nok m res show "frame_buf_size fps' = frame_buf_size fps"
    by (auto simp: ensure_frame_buf_def split: if_splits option.splits)
qed

lemma write_copy_call:
  assumes "write_copy w fps frame = Some (w', fps', r)" and "frame_buf fps' \<noteq> None"
  shows "\<exists>c. calls w' = calls w @ [c] \<and> is_write c \<and> (failed_write c \<longleftrightarrow> \<not> r)"
proof -
  from assms obtain w1 fps1 buf3 written where
    e: "ensure_frame_buf w fps frame = (w1, fps1, True)" and
    fit: "unat (frame_size frame) \<le> length buf3" and
    sw: "sys_write w1 (fd fps1) (take (unat (frame_size frame)) buf3) = (w', written)" and
    r: "r \<longleftrightarrow> written = frame_size frame"
    by (rule write_copy_steps)
  from fit have "(of_nat (length (take (unat (frame_size frame)) buf3)) :: size_t) =
      of_nat (unat (frame_size frame))"
    by (simp add: min_absorb2)
  also have "\<dots> = frame_size frame" by (simp only: of_nat_unat ucast_id)
  finally have "failed_write (Write (fd fps1) (take (unat (frame_size frame)) buf3) written) \<longleftrightarrow> \<not> r"
    using r by simp
  with sys_write_calls [OF sw] ensure_frame_buf_world(2) [OF e] show ?thesis
    by auto
qed

lemma write_frame_data_calls:
  assumes "write_frame_data w fps frame = Some (w', fps', r)"
  shows "(\<not> r \<and> calls w' = calls w \<and> pipe w' = pipe w) \<or>
         (\<exists>c. calls w' = calls w @ [c] \<and> is_write c \<and> (failed_write c \<longleftrightarrow> \<not> r))"
proof (cases "can_write_direct frame")
  case True
  with assms have "write_direct w fps frame = Some (w', fps', r)"
    by (simp add: write_frame_data_def)
  from write_direct_call(1) [OF this] show ?thesis by blast
next
  case False
  with assms have c: "write_copy w fps frame = Some (w', fps', r)"
    by (simp add: write_frame_data_def)
  show ?thesis
  proof (cases "frame_buf fps' = None")
    case True
    from write_copy_unallocated [OF c True] show ?thesis by blast
  next
    case False
    from write_copy_call [OF c False] show ?thesis by blast
  qed
qed

subsection \<open>The system calls of a push\<close>

lemma push_calls:
  assumes "0 \<le> sint (fd fps)" and "\<not> stopped fps"
    and "sc_frame_pipe_sink_push av w fps frame = Some (w', fps', r)"
  shows "(\<exists>ret. ret \<noteq> 12 \<and> \<not> r \<and>
            calls w' = calls w @
              [Write (fd fps) (header_bytes (AVFrame.width frame) (AVFrame.height frame)) ret]) \<or>
         (\<exists>pre ret post.
            calls w' = calls w @ pre @
              Write (fd fps) (pts_bytes (frame_pts_us av (time_base fps) frame)) ret # post \<and>
            (pre = [] \<or>
             pre = [Write (fd fps) (header_bytes (AVFrame.width frame) (AVFrame.height frame)) 12]) \<and>
            (ret \<noteq> 8 \<longrightarrow> post = [] \<and> \<not> r) \<and>
            (ret = 8 \<longrightarrow> (post = [] \<and> \<not> r) \<or>
               (\<exists>c. post = [c] \<and> is_write c \<and> (failed_write c \<longleftrightarrow> \<not> r))))"
  using assms
proof (cases rule: push_cases)
  case header_failed
  from write_header_False(2) [OF header_failed(2)] header_failed(4) show ?thesis
    by blast
next
  case (pts_failed w1 fps1)
  note h = header_step_True [OF pts_failed(1)]
  from h(3) have f1: "fd fps1 = fd fps" "time_base fps1 = time_base fps" by simp_all
  from write_pts_False [OF pts_failed(2)] f1 obtain ret where
    ret: "ret \<noteq> 8"
      "calls w' = calls w1 @ [Write (fd fps) (pts_bytes (frame_pts_us av (time_base fps) frame)) ret]"
    by auto
  let ?pre = "if (AVFrame.width frame, AVFrame.height frame) \<noteq> (width fps, height fps)
     then [Write (fd fps) (header_bytes (AVFrame.width frame) (AVFrame.height frame)) 12] else []"
  from ret h(2) have "calls w' = calls w @ ?pre @
      Write (fd fps) (pts_bytes (frame_pts_us av (time_base fps) frame)) ret # []"
    by simp
  moreover have "?pre = [] \<or>
      ?pre = [Write (fd fps) (header_bytes (AVFrame.width frame) (AVFrame.height frame)) 12]"
    by simp
  ultimately show ?thesis using ret(1) pts_failed(4) by blast
next
  case (data w1 fps1 w2 fps3)
  note h = header_step_True [OF data(1)]
  from h(3) have f1: "fd fps1 = fd fps" "time_base fps1 = time_base fps" by simp_all
  note p = write_pts_True(2) [OF data(2)]
  let ?pre = "if (AVFrame.width frame, AVFrame.height frame) \<noteq> (width fps, height fps)
     then [Write (fd fps) (header_bytes (AVFrame.width frame) (AVFrame.height frame)) 12] else []"
  from write_frame_data_calls [OF data(3)] obtain post where
    post: "calls w' = calls w2 @ post"
      "(post = [] \<and> \<not> r) \<or> (\<exists>c. post = [c] \<and> is_write c \<and> (failed_write c \<longleftrightarrow> \<not> r))"
    by auto
  from post(1) p h(2) f1 have "calls w' = calls w @ ?pre @
      Write (fd fps) (pts_bytes (frame_pts_us av (time_base fps) frame)) 8 # post"
    by simp
  moreover have "?pre = [] \<or>
      ?pre = [Write (fd fps) (header_bytes (AVFrame.width frame) (AVFrame.height frame)) 12]"
    by simp
  ultimately show ?thesis using post(2) by blast
qed

lemma push_result_stopped:
  assumes "0 \<le> sint (fd fps)" and "\<not> stopped fps"
    and "sc_frame_pipe_sink_push av w fps frame = Some (w', fps', r)"
  shows "r \<longleftrightarrow> \<not> stopped fps'"
  using assms
proof (cases rule: push_cases)
  case header_failed
  then show ?thesis by simp
next
  case (pts_failed w1 fps1)
  then show ?thesis by simp
next
  case (data w1 fps1 w2 fps3)
  from header_step_True(3) [OF data(1)] assms(2) have "\<not> stopped fps1" by simp
  moreover from write_frame_data_fields [OF data(3)] have "stopped fps3 = stopped fps1" by auto
  ultimately show ?thesis using data(4) by simp
qed

lemma frame_pts_us_undefined:
  "pts frame = AV_NOPTS_VALUE \<Longrightarrow> frame_pts_us av tb frame = 0"
  by (simp add: frame_pts_us_def)

lemma write_pts_offer:
  assumes "write_pts w fps v = (w', r)"
  shows "\<exists>ret k. calls w' = calls w @ [Write (fd fps) (pts_bytes v) ret] \<and>
           (r \<longleftrightarrow> ret = 8) \<and> pipe w' = pipe w @ take k (pts_bytes v)"
proof -
  obtain w1 ret where sw: "sys_write w (fd fps) (pts_bytes v) = (w1, ret)"
    by (cases "sys_write w (fd fps) (pts_bytes v)")
  with assms have w: "w1 = w'" and r: "r \<longleftrightarrow> ret = 8"
    by (auto simp: write_pts_def split: if_splits)
  from sys_write_calls [OF sw] sys_write_pipe [OF sw] w r show ?thesis
    by blast
qed

text \<open>
  Claim C5. The timestamp field has 8 bytes for every 64-bit value, and decoding them as
  a little-endian integer gives the value back, the same word and so the same signed
  number. \<^verbatim>\<open>write_pts\<close> called with a value makes one write, which offers exactly
  the field of that value; it reports success exactly when the write returns 8, the pipe
  receives a prefix of the field and, on success, the whole field. A push on a streaming
  sink sends the field of the frame's timestamp rescaled to microseconds, and of 0 when
  the timestamp is the undefined sentinel: unless the dimension packet fails, the write
  that follows the optional dimension packet offers that field, and when the push
  succeeds the pipe has received the field between the dimension packet and the payload.
  The field of 0 is eight zero bytes.
\<close>

theorem timestamp_field:
  "length (pts_bytes v) = 8 \<and> le_decode64 (pts_bytes v) = v \<and>
   sint (le_decode64 (pts_bytes v)) = sint v \<and>
   pts_bytes 0 = replicate 8 0 \<and>
   (write_pts w0 fps0 v = (w1, r0) \<longrightarrow>
      (\<exists>ret k. calls w1 = calls w0 @ [Write (fd fps0) (pts_bytes v) ret] \<and>
         (r0 \<longleftrightarrow> ret = 8) \<and> pipe w1 = pipe w0 @ take k (pts_bytes v)) \<and>
      (r0 \<longrightarrow> pipe w1 = pipe w0 @ pts_bytes v)) \<and>
   (0 \<le> sint (fd fps) \<and> \<not> stopped fps \<and>
    sc_frame_pipe_sink_push av w fps frame = Some (w', fps', r) \<longrightarrow>
      (\<exists>us.
         (pts frame = AV_NOPTS_VALUE \<longrightarrow> us = 0) \<and>
         (pts frame \<noteq> AV_NOPTS_VALUE \<longrightarrow>
            us = av (pts frame) (time_base fps) \<lparr>num = 1, den = 1000000\<rparr>) \<and>
         ((\<exists>ret. ret \<noteq> 12 \<and> \<not> r \<and>
             calls w' = calls w @
               [Write (fd fps) (header_bytes (AVFrame.width frame) (AVFrame.height frame)) ret]) \<or>
          (\<exists>pre ret post.
             calls w' = calls w @ pre @ Write (fd fps) (pts_bytes us) ret # post \<and>
             (pre = [] \<or>
              pre = [Write (fd fps) (header_bytes (AVFrame.width frame) (AVFrame.height frame)) 12]) \<and>
             (ret \<noteq> 8 \<longrightarrow> post = [] \<and> \<not> r) \<and>
             (r \<longrightarrow> ret = 8))) \<and>
         (r \<and> 0 \<le> sint (AVFrame.width frame) \<and> 0 \<le> sint (AVFrame.height frame) \<longrightarrow>
            pipe w' = pipe w @
              (if (AVFrame.width frame, AVFrame.height frame) \<noteq> (width fps, height fps)
               then header_bytes (AVFrame.width frame) (AVFrame.height frame) else []) @
              pts_bytes us @ payload frame)))"
proof (intro conjI impI)
  show "length (pts_bytes v) = 8" by (rule length_pts_bytes)
  show "le_decode64 (pts_bytes v) = v" by (rule le_decode64_pts_bytes)
  show "sint (le_decode64 (pts_bytes v)) = sint v" by (simp only: le_decode64_pts_bytes)
  show "pts_bytes 0 = replicate 8 0" by code_simp
next
  assume "write_pts w0 fps0 v = (w1, r0)"
  then show "\<exists>ret k. calls w1 = calls w0 @ [Write (fd fps0) (pts_bytes v) ret] \<and>
         (r0 \<longleftrightarrow> ret = 8) \<and> pipe w1 = pipe w0 @ take k (pts_bytes v)"
    by (rule write_pts_offer)
next
  assume "write_pts w0 fps0 v = (w1, r0)" and r0
  then have "write_pts w0 fps0 v = (w1, True)" by simp
  then show "pipe w1 = pipe w0 @ pts_bytes v" by (rule write_pts_True(1))
next
  assume a: "0 \<le> sint (fd fps) \<and> \<not> stopped fps \<and>
    sc_frame_pipe_sink_push av w fps frame = Some (w', fps', r)"
  then have s: "0 \<le> sint (fd fps)" "\<not> stopped fps"
    and run: "sc_frame_pipe_sink_push av w fps frame = Some (w', fps', r)"
    by simp_all
  let ?us = "frame_pts_us av (time_base fps) frame"
  have u1: "pts frame = AV_NOPTS_VALUE \<longrightarrow> ?us = 0"
    and u2: "pts frame \<noteq> AV_NOPTS_VALUE \<longrightarrow>
            ?us = av (pts frame) (time_base fps) \<lparr>num = 1, den = 1000000\<rparr>"
    by (simp_all add: frame_pts_us_def)
  from push_calls [OF s run]
  consider (header_failed) ret where "ret \<noteq> 12" "\<not> r"
      "calls w' = calls w @
         [Write (fd fps) (header_bytes (AVFrame.width frame) (AVFrame.height frame)) ret]"
    | (timestamp) pre ret post where
      "calls w' = calls w @ pre @ Write (fd fps) (pts_bytes ?us) ret # post"
      "pre = [] \<or>
       pre = [Write (fd fps) (header_bytes (AVFrame.width frame) (AVFrame.height frame)) 12]"
      "ret \<noteq> 8 \<longrightarrow> post = [] \<and> \<not> r"
    by blast
  then have c: "(\<exists>ret. ret \<noteq> 12 \<and> \<not> r \<and>
             calls w' = calls w @
               [Write (fd fps) (header_bytes (AVFrame.width frame) (AVFrame.height frame)) ret]) \<or>
          (\<exists>pre ret post.
             calls w' = calls w @ pre @ Write (fd fps) (pts_bytes ?us) ret # post \<and>
             (pre = [] \<or>
              pre = [Write (fd fps) (header_bytes (AVFrame.width frame) (AVFrame.height frame)) 12]) \<and>
             (ret \<noteq> 8 \<longrightarrow> post = [] \<and> \<not> r) \<and>
             (r \<longrightarrow> ret = 8))"
  proof cases
    case header_failed
    then show ?thesis by blast
  next
    case timestamp
    from timestamp(3) have "r \<longrightarrow> ret = 8" by blast
    with timestamp show ?thesis by blast
  qed
  have p: "r \<and> 0 \<le> sint (AVFrame.width frame) \<and> 0 \<le> sint (AVFrame.height frame) \<longrightarrow>
            pipe w' = pipe w @
              (if (AVFrame.width frame, AVFrame.height frame) \<noteq> (width fps, height fps)
               then header_bytes (AVFrame.width frame) (AVFrame.height frame) else []) @
              pts_bytes ?us @ payload frame"
  proof (intro impI, elim conjE)
    assume r and n: "0 \<le> sint (AVFrame.width frame)" "0 \<le> sint (AVFrame.height frame)"
    with run have "sc_frame_pipe_sink_push av w fps frame = Some (w', fps', True)" by simp
    from push_True(1) [OF s n this] show "pipe w' = pipe w @
              (if (AVFrame.width frame, AVFrame.height frame) \<noteq> (width fps, height fps)
               then header_bytes (AVFrame.width frame) (AVFrame.height frame) else []) @
              pts_bytes ?us @ payload frame" .
  qed
  from u1 u2 c p show "\<exists>us.
         (pts frame = AV_NOPTS_VALUE \<longrightarrow> us = 0) \<and>
         (pts frame \<noteq> AV_NOPTS_VALUE \<longrightarrow>
            us = av (pts frame) (time_base fps) \<lparr>num = 1, den = 1000000\<rparr>) \<and>
         ((\<exists>ret. ret \<noteq> 12 \<and> \<not> r \<and>
             calls w' = calls w @
               [Write (fd fps) (header_bytes (AVFrame.width frame) (AVFrame.height frame)) ret]) \<or>
          (\<exists>pre ret post.
             calls w' = calls w @ pre @ Write (fd fps) (pts_bytes us) ret # post \<and>
             (pre = [] \<or>
              pre = [Write (fd fps) (header_bytes (AVFrame.width frame) (AVFrame.height frame)) 12]) \<and>
             (ret \<noteq> 8 \<longrightarrow> post = [] \<and> \<not> r) \<and>
             (r \<longrightarrow> ret = 8))) \<and>
         (r \<and> 0 \<le> sint (AVFrame.width frame) \<and> 0 \<le> sint (AVFrame.height frame) \<longrightarrow>
            pipe w' = pipe w @
              (if (AVFrame.width frame, AVFrame.height frame) \<noteq> (width fps, height fps)
               then header_bytes (AVFrame.width frame) (AVFrame.height frame) else []) @
              pts_bytes us @ payload frame)"
    by (intro exI [of _ ?us] conjI)
qed

theorem timestamp_field_witness:
  "pts frame_4x2 \<noteq> AV_NOPTS_VALUE \<and> pts frame_2x2_padded = AV_NOPTS_VALUE \<and>
   le_decode64 (pts_bytes (- 5)) = - 5 \<and>
   (\<exists>w1. write_pts quiet_world open_sink (- 5) = (w1, True) \<and>
      pipe w1 = pts_bytes (- 5) \<and> calls w1 = [Write 3 (pts_bytes (- 5)) 8]) \<and>
   (\<exists>w' fps'. sc_frame_pipe_sink_push rescale_seconds quiet_world open_sink frame_4x2 =
        Some (w', fps', True) \<and>
      pipe w' = header_bytes 4 2 @ pts_bytes 2000000 @ payload frame_4x2) \<and>
   (\<exists>w' fps'. sc_frame_pipe_sink_push rescale_seconds quiet_world open_sink frame_2x2_padded =
        Some (w', fps', True) \<and>
      pipe w' = header_bytes 2 2 @ pts_bytes 0 @ payload frame_2x2_padded) \<and>
   pts_bytes 2000000 = [128, 132, 30, 0, 0, 0, 0, 0] \<and>
   pts_bytes (- 5) = [251, 255, 255, 255, 255, 255, 255, 255]"
proof -
  have d: "pts frame_4x2 \<noteq> AV_NOPTS_VALUE"
    by (simp add: frame_4x2_def AV_NOPTS_VALUE_def)
  have n: "pts frame_2x2_padded = AV_NOPTS_VALUE" by (simp add: frame_2x2_padded_def)
  have s: "0 \<le> sint (fd open_sink)" "\<not> stopped open_sink" by (simp_all add: open_sink_def)
  have o: "width open_sink = 0" "height open_sink = 0" "fd open_sink = 3"
    "time_base open_sink = \<lparr>num = 1, den = 1\<rparr>" "pipe quiet_world = []" "calls quiet_world = []"
    by (simp_all add: open_sink_def quiet_world_def)
  have f4: "AVFrame.width frame_4x2 = 4" "AVFrame.height frame_4x2 = 2" "pts frame_4x2 = 2"
    by (simp_all add: frame_4x2_def)
  have f2: "AVFrame.width frame_2x2_padded = 2" "AVFrame.height frame_2x2_padded = 2"
    by (simp_all add: frame_2x2_padded_def)
  have us: "rescale_seconds 2 \<lparr>num = 1, den = 1\<rparr> \<lparr>num = 1, den = 1000000\<rparr> = 2000000"
    by (simp add: rescale_seconds_def)
  have b1: "pts_bytes 2000000 = [128, 132, 30, 0, 0, 0, 0, 0]" by code_simp
  have b2: "pts_bytes (- 5) = [251, 255, 255, 255, 255, 255, 255, 255]" by code_simp
  have "case write_pts quiet_world open_sink (- 5) of (w1, r) \<Rightarrow> r"
    by code_simp
  then obtain w1 where wp: "write_pts quiet_world open_sink (- 5) = (w1, True)"
    by (cases "write_pts quiet_world open_sink (- 5)") simp
  have "case sc_frame_pipe_sink_push rescale_seconds quiet_world open_sink frame_4x2 of
          None \<Rightarrow> False | Some (w', fps', r) \<Rightarrow> r"
    by code_simp
  then obtain w4 fps4 where
    run4: "sc_frame_pipe_sink_push rescale_seconds quiet_world open_sink frame_4x2 =
        Some (w4, fps4, True)"
    by (auto split: option.splits)
  have "case sc_frame_pipe_sink_push rescale_seconds quiet_world open_sink frame_2x2_padded of
          None \<Rightarrow> False | Some (w', fps', r) \<Rightarrow> r"
    by code_simp
  then obtain w2 fps2 where
    run2: "sc_frame_pipe_sink_push rescale_seconds quiet_world open_sink frame_2x2_padded =
        Some (w2, fps2, True)"
    by (auto split: option.splits)
  note t4 = timestamp_field [where v = "- 5" and ?w0.0 = quiet_world and ?fps0.0 = open_sink
      and ?w1.0 = w1 and ?r0.0 = True and av = rescale_seconds and w = quiet_world
      and fps = open_sink and frame = frame_4x2 and w' = w4 and fps' = fps4 and r = True]
  note t2 = timestamp_field [where v = 0 and ?w0.0 = quiet_world and ?fps0.0 = open_sink
      and ?w1.0 = w1 and ?r0.0 = True and av = rescale_seconds and w = quiet_world
      and fps = open_sink and frame = frame_2x2_padded and w' = w2 and fps' = fps2 and r = True]
  from t4 have dec: "le_decode64 (pts_bytes (- 5)) = - 5" by blast
  from t4 wp have p1: "pipe w1 = pipe quiet_world @ pts_bytes (- 5)" by blast
  from t4 wp obtain ret where
    "calls w1 = calls quiet_world @ [Write (fd open_sink) (pts_bytes (- 5)) ret]"
    "True \<longleftrightarrow> ret = 8"
    by blast
  then have c1: "calls w1 = [Write 3 (pts_bytes (- 5)) 8]" by (simp add: o)
  from t4 s run4 have "\<exists>us.
      (pts frame_4x2 \<noteq> AV_NOPTS_VALUE \<longrightarrow>
         us = rescale_seconds (pts frame_4x2) (time_base open_sink) \<lparr>num = 1, den = 1000000\<rparr>) \<and>
      (True \<and> 0 \<le> sint (AVFrame.width frame_4x2) \<and> 0 \<le> sint (AVFrame.height frame_4x2) \<longrightarrow>
         pipe w4 = pipe quiet_world @
           (if (AVFrame.width frame_4x2, AVFrame.height frame_4x2) \<noteq>
               (width open_sink, height open_sink)
            then header_bytes (AVFrame.width frame_4x2) (AVFrame.height frame_4x2) else []) @
           pts_bytes us @ payload frame_4x2)"
    by blast
  with d have p4: "pipe w4 = header_bytes 4 2 @ pts_bytes 2000000 @ payload frame_4x2"
    by (auto simp add: f4 o us)
  from t2 s run2 have "\<exists>us.
      (pts frame_2x2_padded = AV_NOPTS_VALUE \<longrightarrow> us = 0) \<and>
      (True \<and> 0 \<le> sint (AVFrame.width frame_2x2_padded) \<and>
       0 \<le> sint (AVFrame.height frame_2x2_padded) \<longrightarrow>
         pipe w2 = pipe quiet_world @
           (if (AVFrame.width frame_2x2_padded, AVFrame.height frame_2x2_padded) \<noteq>
               (width open_sink, height open_sink)
            then header_bytes (AVFrame.width frame_2x2_padded) (AVFrame.height frame_2x2_padded)
            else []) @
           pts_bytes us @ payload frame_2x2_padded)"
    by blast
  with n have p2: "pipe w2 = header_bytes 2 2 @ pts_bytes 0 @ payload frame_2x2_padded"
    by (auto simp add: f2 o)
  from p1 have p1': "pipe w1 = pts_bytes (- 5)" by (simp add: o)
  from d n dec wp p1' c1 run4 p4 run2 p2 b1 b2 show ?thesis by blast
qed

subsection \<open>The stopped flag\<close>

lemma close_keeps:
  assumes "sc_frame_pipe_sink_close w fps = (w', fps')"
  shows "stopped fps' = stopped fps" and "pipe w' = pipe w"
    and "filter is_write (calls w') = filter is_write (calls w)"
    and "frame_buf fps' = frame_buf fps" and "frame_buf_size fps' = frame_buf_size fps"
  using assms by (auto simp: sc_frame_pipe_sink_close_def Let_def split: if_splits)

lemma run_calls_stopped:
  assumes "stopped fps"
  shows "\<exists>w' fps'. run_calls av w fps cs =
           Some (w', fps', replicate (length (filter is_push cs)) False) \<and>
         stopped fps' \<and> pipe w' = pipe w \<and>
         filter is_write (calls w') = filter is_write (calls w)"
  using assms
proof (induction cs arbitrary: w fps)
  case Nil
  then show ?case by simp
next
  case (Cons c cs)
  show ?case
  proof (cases c)
    case (Push_call frame)
    from Cons.prems have "sc_frame_pipe_sink_push av w fps frame = Some (w, fps, False)"
      by (simp add: push_rejected)
    with Cons.IH [OF Cons.prems, of w] Push_call show ?thesis
      by auto
  next
    case Close_call
    obtain w1 fps1 where c: "sc_frame_pipe_sink_close w fps = (w1, fps1)"
      by (cases "sc_frame_pipe_sink_close w fps")
    from close_keeps(1-3) [OF c] Cons.prems have s1: "stopped fps1" and
      k: "pipe w1 = pipe w" "filter is_write (calls w1) = filter is_write (calls w)"
      by simp_all
    from Cons.IH [OF s1, of w1] c k Close_call show ?thesis
      by auto
  qed
qed

lemma not_failed_header_pts:
  "\<not> failed_write (Write d (header_bytes a b) 12)" "\<not> failed_write (Write d (pts_bytes v) 8)"
  by (simp_all add: length_header_bytes length_pts_bytes)

lemma push_failed_write:
  assumes "0 \<le> sint (fd fps)" and "\<not> stopped fps"
    and "sc_frame_pipe_sink_push av w fps frame = Some (w', fps', r)"
    and "\<exists>c \<in> set (new_calls w w'). failed_write c"
  shows "\<not> r"
proof
  assume r
  with push_calls [OF assms(1-3)] obtain pre post where
    c: "calls w' = calls w @ pre @
          Write (fd fps) (pts_bytes (frame_pts_us av (time_base fps) frame)) 8 # post" and
    pre: "pre = [] \<or>
          pre = [Write (fd fps) (header_bytes (AVFrame.width frame) (AVFrame.height frame)) 12]" and
    post: "\<exists>c. post = [c] \<and> \<not> failed_write c"
    by blast
  from c have "new_calls w w' = pre @
      Write (fd fps) (pts_bytes (frame_pts_us av (time_base fps) frame)) 8 # post"
    by (simp add: new_calls_def)
  with pre post not_failed_header_pts have "\<forall>c \<in> set (new_calls w w'). \<not> failed_write c"
    by auto
  with assms(4) show False by blast
qed

text \<open>
  Claim C7. Once \<open>stopped\<close> is set, every sequence of push and close calls leaves it
  set: each push in it returns failure, nothing more reaches the pipe and no write call
  is issued. And a push on a streaming sink returns success exactly when it leaves
  \<open>stopped\<close> unset: if one of its write calls (header, timestamp or payload) returns
  anything but the number of bytes offered, the push returns failure and \<open>stopped\<close> is
  set.
\<close>

theorem stopped_is_permanent:
  "(stopped fps \<longrightarrow>
      (\<exists>w' fps'. run_calls av w fps cs =
           Some (w', fps', replicate (length (filter is_push cs)) False) \<and>
         stopped fps' \<and> pipe w' = pipe w \<and>
         filter is_write (calls w') = filter is_write (calls w))) \<and>
   (0 \<le> sint (fd fps0) \<and> \<not> stopped fps0 \<and>
    sc_frame_pipe_sink_push av w0 fps0 frame = Some (w1, fps1, r) \<longrightarrow>
      (r \<longleftrightarrow> \<not> stopped fps1) \<and>
      ((\<exists>c \<in> set (new_calls w0 w1). failed_write c) \<longrightarrow> \<not> r \<and> stopped fps1))"
proof (intro conjI impI)
  assume "stopped fps"
  then show "\<exists>w' fps'. run_calls av w fps cs =
           Some (w', fps', replicate (length (filter is_push cs)) False) \<and>
         stopped fps' \<and> pipe w' = pipe w \<and>
         filter is_write (calls w') = filter is_write (calls w)"
    by (rule run_calls_stopped)
next
  assume a: "0 \<le> sint (fd fps0) \<and> \<not> stopped fps0 \<and>
    sc_frame_pipe_sink_push av w0 fps0 frame = Some (w1, fps1, r)"
  then have s: "0 \<le> sint (fd fps0)" "\<not> stopped fps0"
    "sc_frame_pipe_sink_push av w0 fps0 frame = Some (w1, fps1, r)"
    by simp_all
  from push_result_stopped [OF s] show rs: "r \<longleftrightarrow> \<not> stopped fps1" .
  assume f: "\<exists>c \<in> set (new_calls w0 w1). failed_write c"
  from push_failed_write [OF s f] show "\<not> r" .
  with rs show "stopped fps1" by simp
qed

theorem stopped_is_permanent_witness:
  "\<exists>w1 fps1 w2 fps2.
     sc_frame_pipe_sink_push rescale_seconds
         (quiet_world\<lparr>write_results := [Complete, Complete, Partial 4]\<rparr>) open_sink
         frame_2x2_padded = Some (w1, fps1, False) \<and>
     new_calls (quiet_world\<lparr>write_results := [Complete, Complete, Partial 4]\<rparr>) w1 =
       [Write 3 (header_bytes 2 2) 12, Write 3 (pts_bytes 0) 8, Write 3 [1, 2, 3, 4, 5, 6] 4] \<and>
     stopped fps1 \<and>
     run_calls rescale_seconds w1 fps1 [Push_call frame_2x2, Close_call, Push_call frame_4x2] =
       Some (w2, fps2, [False, False]) \<and>
     stopped fps2 \<and> pipe w2 = pipe w1"
proof -
  let ?w = "quiet_world\<lparr>write_results := [Complete, Complete, Partial 4]\<rparr>"
  let ?cs = "[Push_call frame_2x2, Close_call, Push_call frame_4x2]"
  have "case sc_frame_pipe_sink_push rescale_seconds ?w open_sink frame_2x2_padded of
          None \<Rightarrow> False
        | Some (w1, fps1, r) \<Rightarrow> \<not> r \<and> new_calls ?w w1 =
            [Write 3 (header_bytes 2 2) 12, Write 3 (pts_bytes 0) 8, Write 3 [1, 2, 3, 4, 5, 6] 4]"
    by code_simp
  then obtain w1 fps1 where
    run: "sc_frame_pipe_sink_push rescale_seconds ?w open_sink frame_2x2_padded =
            Some (w1, fps1, False)" and
    c: "new_calls ?w w1 =
          [Write 3 (header_bytes 2 2) 12, Write 3 (pts_bytes 0) 8, Write 3 [1, 2, 3, 4, 5, 6] 4]"
    by (auto split: option.splits)
  have s: "0 \<le> sint (fd open_sink)" "\<not> stopped open_sink" by (simp_all add: open_sink_def)
  from c have f: "\<exists>c \<in> set (new_calls ?w w1). failed_write c" by simp
  note t = stopped_is_permanent [where fps = fps1 and av = rescale_seconds and w = w1 and cs = ?cs
      and ?fps0.0 = open_sink and ?w0.0 = ?w and frame = frame_2x2_padded and ?w1.0 = w1
      and ?fps1.0 = fps1 and r = False]
  from t s run f have st: "stopped fps1" by blast
  with t obtain w2 fps2 where
    "run_calls rescale_seconds w1 fps1 ?cs =
       Some (w2, fps2, replicate (length (filter is_push ?cs)) False)"
    "stopped fps2" "pipe w2 = pipe w1"
    by blast
  then have "run_calls rescale_seconds w1 fps1 ?cs = Some (w2, fps2, [False, False])"
    "stopped fps2" "pipe w2 = pipe w1"
    by (simp_all add: numeral_2_eq_2)
  with run c st show ?thesis by blast
qed

subsection \<open>The capacity of the scratch buffer\<close>

lemma copy_plane_length:
  assumes "copy_plane buf dst src stride rw rows 0 = Some (buf', dst')"
  shows "length buf' = length buf"
  using copy_plane_rows [OF assms order_refl] by (rule conjunct1)

lemma ensure_frame_buf_capacity:
  assumes e: "ensure_frame_buf w fps frame = (w1, fps1, ok)"
    and inv: "case frame_buf fps of None \<Rightarrow> frame_buf_size fps = 0
              | Some b \<Rightarrow> length b = unat (frame_buf_size fps)"
  shows "frame_buf_size fps \<le> frame_buf_size fps1"
    and "case frame_buf fps1 of None \<Rightarrow> \<not> ok
         | Some b \<Rightarrow> ok \<and> length b = unat (frame_buf_size fps1) \<and>
                     frame_size frame \<le> frame_buf_size fps1"
proof -
  obtain w2 blk where m: "sys_malloc w (frame_size frame) = (w2, blk)"
    by (cases "sys_malloc w (frame_size frame)")
  have "frame_buf_size fps \<le> frame_buf_size fps1 \<and>
    (case frame_buf fps1 of None \<Rightarrow> \<not> ok
     | Some b \<Rightarrow> ok \<and> length b = unat (frame_buf_size fps1) \<and>
                 frame_size frame \<le> frame_buf_size fps1)"
  proof (cases "frame_buf fps = None \<or> frame_buf_size fps < frame_size frame")
    case True
    with inv have le: "frame_buf_size fps \<le> frame_size frame"
      by (auto split: option.splits)
    show ?thesis
    proof (cases blk)
      case None
      with True e m have "fps1 = fps\<lparr>frame_buf := None\<rparr>" "\<not> ok"
        by (auto simp: ensure_frame_buf_def)
      then show ?thesis by simp
    next
      case (Some b)
      with True e m have "fps1 = fps\<lparr>frame_buf := Some b, frame_buf_size := frame_size frame\<rparr>" ok
        by (auto simp: ensure_frame_buf_def)
      with le sys_malloc_world(4) [OF m Some] show ?thesis by simp
    qed
  next
    case False
    with e have "fps1 = fps" ok by (simp_all add: ensure_frame_buf_def)
    with False inv show ?thesis by (auto split: option.splits)
  qed
  then show "frame_buf_size fps \<le> frame_buf_size fps1"
    and "case frame_buf fps1 of None \<Rightarrow> \<not> ok
         | Some b \<Rightarrow> ok \<and> length b = unat (frame_buf_size fps1) \<and>
                     frame_size frame \<le> frame_buf_size fps1"
    by blast+
qed

lemma write_copy_capacity:
  assumes c: "write_copy w fps frame = Some (w', fps', r)"
    and inv: "case frame_buf fps of None \<Rightarrow> frame_buf_size fps = 0
              | Some b \<Rightarrow> length b = unat (frame_buf_size fps)"
  shows "frame_buf_size fps \<le> frame_buf_size fps'"
    and "case frame_buf fps' of None \<Rightarrow> \<not> r
         | Some b \<Rightarrow> length b = unat (frame_buf_size fps') \<and>
                     unat (frame_size frame) \<le> length b"
proof -
  have "frame_buf_size fps \<le> frame_buf_size fps' \<and>
    (case frame_buf fps' of None \<Rightarrow> \<not> r
     | Some b \<Rightarrow> length b = unat (frame_buf_size fps') \<and> unat (frame_size frame) \<le> length b)"
  proof (cases "frame_buf fps'")
    case None
    from write_copy_unallocated(1,4) [OF c None] None show ?thesis by simp
  next
    case (Some b3)
    then have a: "frame_buf fps' \<noteq> None" by simp
    from c a obtain w1 fps1 buf0 buf1 dst1 buf2 dst2 buf3 dst3 where
      e: "ensure_frame_buf w fps frame = (w1, fps1, True)" and
      b0: "frame_buf fps1 = Some buf0" and
      c1: "copy_plane buf0 0 (data frame 0) (linesize frame 0)
         (AVFrame.width frame) (AVFrame.height frame) 0 = Some (buf1, dst1)" and
      c2: "copy_plane buf1 dst1 (data frame 1) (linesize frame 1)
         (uv_width frame) (uv_height frame) 0 = Some (buf2, dst2)" and
      c3: "copy_plane buf2 dst2 (data frame 2) (linesize frame 2)
         (uv_width frame) (uv_height frame) 0 = Some (buf3, dst3)" and
      f': "fps' = fps1\<lparr>frame_buf := Some buf3\<rparr>"
      by (rule write_copy_steps)
    from copy_plane_length [OF c1] copy_plane_length [OF c2] copy_plane_length [OF c3]
    have len: "length buf3 = length buf0" by simp
    from ensure_frame_buf_capacity [OF e inv] b0 have
      "frame_buf_size fps \<le> frame_buf_size fps1" "length buf0 = unat (frame_buf_size fps1)"
      "frame_size frame \<le> frame_buf_size fps1"
      by simp_all
    with f' len show ?thesis
      by (simp add: word_le_nat_alt)
  qed
  then show "frame_buf_size fps \<le> frame_buf_size fps'"
    and "case frame_buf fps' of None \<Rightarrow> \<not> r
         | Some b \<Rightarrow> length b = unat (frame_buf_size fps') \<and>
                     unat (frame_size frame) \<le> length b"
    by blast+
qed

lemma write_frame_data_capacity:
  assumes d: "write_frame_data w fps frame = Some (w', fps', r)"
    and inv: "case frame_buf fps of None \<Rightarrow> frame_buf_size fps = 0
              | Some b \<Rightarrow> length b = unat (frame_buf_size fps)"
  shows "frame_buf_size fps \<le> frame_buf_size fps'"
    and "case frame_buf fps' of None \<Rightarrow> frame_buf_size fps' = 0 \<or> \<not> r
         | Some b \<Rightarrow> length b = unat (frame_buf_size fps')"
proof -
  have "frame_buf_size fps \<le> frame_buf_size fps' \<and>
    (case frame_buf fps' of None \<Rightarrow> frame_buf_size fps' = 0 \<or> \<not> r
     | Some b \<Rightarrow> length b = unat (frame_buf_size fps'))"
  proof (cases "can_write_direct frame")
    case True
    with d have "write_direct w fps frame = Some (w', fps', r)"
      by (simp add: write_frame_data_def)
    from write_direct_call(2) [OF this] inv show ?thesis
      by (auto split: option.splits)
  next
    case False
    with d have "write_copy w fps frame = Some (w', fps', r)"
      by (simp add: write_frame_data_def)
    from write_copy_capacity [OF this inv] show ?thesis
      by (auto split: option.splits)
  qed
  then show "frame_buf_size fps \<le> frame_buf_size fps'"
    and "case frame_buf fps' of None \<Rightarrow> frame_buf_size fps' = 0 \<or> \<not> r
         | Some b \<Rightarrow> length b = unat (frame_buf_size fps')"
    by blast+
qed

lemma push_capacity:
  assumes p: "sc_frame_pipe_sink_push av w fps frame = Some (w', fps', r)"
    and inv: "frame_buf_inv fps"
  shows "frame_buf_size fps \<le> frame_buf_size fps' \<and> frame_buf_inv fps'"
proof (cases "sint (fd fps) < 0 \<or> stopped fps")
  case True
  with p have "fps' = fps" by (simp add: push_rejected)
  with inv show ?thesis by simp
next
  case False
  then have s: "0 \<le> sint (fd fps)" "\<not> stopped fps" by simp_all
  from s p show ?thesis
  proof (cases rule: push_cases)
    case header_failed
    with inv show ?thesis
      by (auto simp: frame_buf_inv_def split: option.splits)
  next
    case (pts_failed w1 fps1)
    from header_step_True(3) [OF pts_failed(1)] pts_failed(3) inv show ?thesis
      by (auto simp: frame_buf_inv_def split: option.splits)
  next
    case (data w1 fps1 w2 fps3)
    from header_step_True(3) [OF data(1)] inv s(2)
    have i1: "case frame_buf fps1 of None \<Rightarrow> frame_buf_size fps1 = 0
              | Some b \<Rightarrow> length b = unat (frame_buf_size fps1)"
      and e1: "frame_buf_size fps1 = frame_buf_size fps"
      by (auto simp: frame_buf_inv_def split: option.splits)
    from write_frame_data_capacity [OF data(3) i1] e1 data(4) show ?thesis
      by (auto simp: frame_buf_inv_def split: option.splits if_splits)
  qed
qed





subsection \<open>Defined behaviour: the code returns on frames it can read\<close>

lemma memcpy_returns:
  assumes "0 \<le> int (snd src) + off" and "nat (int (snd src) + off) + n \<le> length (fst src)"
    and "dst + n \<le> length buf"
  shows "\<exists>buf1. memcpy buf dst src off n = Some buf1 \<and> length buf1 = length buf"
  using assms by (simp add: memcpy_def load_def store_def Let_def min_absorb2)

lemma copy_plane_returns:
  assumes "k = nat (sint rows) - nat y" and "0 \<le> y" and "0 \<le> sint rw"
    and "list_all (\<lambda>i. in_int_range (int i * sint stride) \<and>
                    0 \<le> int (snd src) + int i * sint stride \<and>
                    nat (int (snd src) + int i * sint stride) + nat (sint rw) \<le> length (fst src))
           [0..<nat (sint rows)]"
    and "dst + nat (sint rw) * k \<le> length buf"
  shows "\<exists>res. copy_plane buf dst src stride rw rows y = Some res"
  using assms
proof (induction k arbitrary: y buf dst)
  case 0
  then have "\<not> y < sint rows" by simp
  then show ?case by (simp add: copy_plane.simps [of buf dst src stride rw rows y])
next
  case (Suc k)
  let ?n = "nat (sint rw)"
  from Suc.prems(1) have i: "nat y < nat (sint rows)" by arith
  with Suc.prems(2) have lt: "y < sint rows" by arith
  from Suc.prems(2) have y: "int (nat y) = y" by simp
  from i have "nat y \<in> set [0..<nat (sint rows)]" by simp
  with Suc.prems(4) [unfolded list_all_iff] have
    "in_int_range (int (nat y) * sint stride) \<and>
     0 \<le> int (snd src) + int (nat y) * sint stride \<and>
     nat (int (snd src) + int (nat y) * sint stride) + ?n \<le> length (fst src)"
    by (rule bspec)
  then have r: "in_int_range (y * sint stride)" "0 \<le> int (snd src) + y * sint stride"
    "nat (int (snd src) + y * sint stride) + ?n \<le> length (fst src)"
    by (simp_all only: y)
  from Suc.prems(5) have fit: "dst + ?n \<le> length buf" by simp
  from memcpy_returns [OF r(2,3) fit] obtain buf1 where
    m: "memcpy buf dst src (y * sint stride) ?n = Some buf1" and l: "length buf1 = length buf"
    by blast
  from Suc.prems(1,2) have k: "k = nat (sint rows) - nat (y + 1)" by arith
  from Suc.prems(2) have y1: "0 \<le> y + 1" by simp
  from Suc.prems(5) l have fit1: "dst + ?n + ?n * k \<le> length buf1" by simp
  from Suc.IH [OF k y1 Suc.prems(3,4) fit1] obtain res where
    "copy_plane buf1 (dst + ?n) src stride rw rows (y + 1) = Some res" by blast
  with lt Suc.prems(3) r(1) m show ?case
    by (simp add: copy_plane.simps [of buf dst src stride rw rows y])
qed

lemma copy_plane_plane_ok:
  assumes "plane_ok src stride (nat (sint rw)) (nat (sint rows))" and "0 \<le> sint rw"
    and "dst + nat (sint rw) * nat (sint rows) \<le> length buf"
  shows "\<exists>buf'. copy_plane buf dst src stride rw rows 0 =
           Some (buf', dst + nat (sint rw) * nat (sint rows)) \<and> length buf' = length buf"
proof -
  from assms(1) have rows: "list_all (\<lambda>i. in_int_range (int i * sint stride) \<and>
                    0 \<le> int (snd src) + int i * sint stride \<and>
                    nat (int (snd src) + int i * sint stride) + nat (sint rw) \<le> length (fst src))
           [0..<nat (sint rows)]"
    by (simp add: plane_ok_def)
  have "nat (sint rows) = nat (sint rows) - nat 0" by simp
  from copy_plane_returns [OF this order_refl assms(2) rows] assms(3) obtain buf' dst' where
    c: "copy_plane buf dst src stride rw rows 0 = Some (buf', dst')"
    by fastforce
  from copy_plane_rows [OF c order_refl] have "length buf' = length buf"
    "dst' = dst + nat (sint rw) * (nat (sint rows) - nat 0)"
    by blast+
  with c show ?thesis by simp
qed

lemma load_plane_ok:
  assumes "plane_ok p stride n rows" and "sint stride = int n"
  shows "\<exists>bs. load p 0 (n * rows) = Some bs"
proof -
  have "snd p + n * rows \<le> length (fst p)"
  proof (cases rows)
    case 0
    with assms(1) show ?thesis by (simp add: plane_ok_def)
  next
    case (Suc m)
    then have "m \<in> set [0..<rows]" by simp
    with assms(1) [unfolded plane_ok_def list_all_iff]
    have "nat (int (snd p) + int m * sint stride) + n \<le> length (fst p)"
      by blast
    moreover have "nat (int (snd p) + int m * int n) = snd p + m * n"
      by (simp add: nat_add_distrib nat_mult_distrib)
    ultimately show ?thesis using Suc assms(2) by (simp add: mult.commute)
  qed
  then show ?thesis by (simp add: load_def)
qed

lemma write_direct_returns:
  assumes ok: "frame_ok frame" and direct: "can_write_direct frame"
  shows "\<exists>res. write_direct w fps frame = Some res"
proof -
  let ?W = "nat (sint (AVFrame.width frame))" and ?H = "nat (sint (AVFrame.height frame))"
  from ok have nonneg: "0 \<le> sint (AVFrame.width frame)" "0 \<le> sint (AVFrame.height frame)"
    and p0: "plane_ok (data frame 0) (linesize frame 0) ?W ?H"
    and p1: "plane_ok (data frame 1) (linesize frame 1) (?W div 2) (?H div 2)"
    and p2: "plane_ok (data frame 2) (linesize frame 2) (?W div 2) (?H div 2)"
    by (simp_all add: frame_ok_def Let_def)
  note sz = frame_sizes [OF nonneg]
  from direct nonneg have s0: "sint (linesize frame 0) = int ?W"
    by (simp add: can_write_direct_def)
  from direct sz(1,3) have s1: "sint (linesize frame 1) = int (?W div 2)"
    by (simp add: can_write_direct_def flip: sz(1))
  from direct sz(1,3) have s2: "sint (linesize frame 2) = int (?W div 2)"
    by (simp add: can_write_direct_def flip: sz(1))
  from load_plane_ok [OF p0 s0] obtain iov0 where
    "load (data frame 0) 0 (unat (y_size frame)) = Some iov0"
    by (auto simp only: sz(5))
  moreover from load_plane_ok [OF p1 s1] obtain iov1 where
    "load (data frame 1) 0 (unat (uv_size frame)) = Some iov1"
    by (auto simp only: sz(6))
  moreover from load_plane_ok [OF p2 s2] obtain iov2 where
    "load (data frame 2) 0 (unat (uv_size frame)) = Some iov2"
    by (auto simp only: sz(6))
  ultimately show ?thesis
    by (cases "sys_writev w (fd fps) [iov0, iov1, iov2]") (auto simp: write_direct_def)
qed

lemma planes_fit:
  fixes a b n :: nat
  assumes "a + b + b \<le> n"
  shows "0 + a \<le> n \<and> a + b \<le> n"
  using assms by simp

lemma write_copy_returns:
  assumes ok: "frame_ok frame"
    and inv: "\<forall>b. frame_buf fps = Some b \<longrightarrow> length b = unat (frame_buf_size fps)"
  shows "\<exists>res. write_copy w fps frame = Some res"
proof -
  let ?W = "nat (sint (AVFrame.width frame))" and ?H = "nat (sint (AVFrame.height frame))"
  from ok have nonneg: "0 \<le> sint (AVFrame.width frame)" "0 \<le> sint (AVFrame.height frame)"
    and p0: "plane_ok (data frame 0) (linesize frame 0) ?W ?H"
    and p1: "plane_ok (data frame 1) (linesize frame 1) (?W div 2) (?H div 2)"
    and p2: "plane_ok (data frame 2) (linesize frame 2) (?W div 2) (?H div 2)"
    by (simp_all add: frame_ok_def Let_def)
  note sz = frame_sizes [OF nonneg]
  obtain w1 fps1 alloc where e: "ensure_frame_buf w fps frame = (w1, fps1, alloc)"
    by (cases "ensure_frame_buf w fps frame")
  show ?thesis
  proof (cases alloc)
    case False
    with e show ?thesis by (auto simp: write_copy_def)
  next
    case True
    obtain w2 blk where m: "sys_malloc w (frame_size frame) = (w2, blk)"
      by (cases "sys_malloc w (frame_size frame)")
    from e True m inv obtain buf0 where
      b0: "frame_buf fps1 = Some buf0" and l0: "unat (frame_size frame) \<le> length buf0"
      using sys_malloc_world(4) [OF m]
      by (auto simp: ensure_frame_buf_def word_le_nat_alt not_less
            split: if_splits option.splits)
    let ?uw = "nat (sint (uv_width frame))" and ?uh = "nat (sint (uv_height frame))"
    have uw: "?W div 2 = ?uw" and uh: "?H div 2 = ?uh"
      by (simp_all only: sz(1,2))
    have "unat (frame_size frame) = ?W * ?H + 2 * (?uw * ?uh)"
      by (simp only: sz(7) uw uh)
    with l0 have fit: "?W * ?H + ?uw * ?uh + ?uw * ?uh \<le> length buf0"
      by (simp only: mult_2 add.assoc)
    from planes_fit [OF fit] have fit0: "0 + ?W * ?H \<le> length buf0"
      and fit1': "?W * ?H + ?uw * ?uh \<le> length buf0"
      by blast+
    from copy_plane_plane_ok [OF p0 nonneg(1) fit0] obtain buf1 where
      c1: "copy_plane buf0 0 (data frame 0) (linesize frame 0)
             (AVFrame.width frame) (AVFrame.height frame) 0 = Some (buf1, 0 + ?W * ?H)" and
      l1: "length buf1 = length buf0"
      by blast
    from fit1' have fit1: "?W * ?H + ?uw * ?uh \<le> length buf1"
      by (simp only: l1)
    from copy_plane_plane_ok [OF p1 [unfolded uw uh] sz(3) fit1] obtain buf2 where
      c2: "copy_plane buf1 (?W * ?H) (data frame 1) (linesize frame 1)
             (uv_width frame) (uv_height frame) 0 = Some (buf2, ?W * ?H + ?uw * ?uh)" and
      l2: "length buf2 = length buf1"
      by blast
    from fit have fit2: "?W * ?H + ?uw * ?uh + ?uw * ?uh \<le> length buf2"
      by (simp only: l1 l2)
    from copy_plane_plane_ok [OF p2 [unfolded uw uh] sz(3) fit2] obtain buf3 where
      c3: "copy_plane buf2 (?W * ?H + ?uw * ?uh) (data frame 2) (linesize frame 2)
             (uv_width frame) (uv_height frame) 0 = Some (buf3, ?W * ?H + ?uw * ?uh + ?uw * ?uh)" and
      l3: "length buf3 = length buf2"
      by blast
    from l0 have l: "\<not> length buf3 < unat (frame_size frame)"
      by (simp only: l1 l2 l3 not_less)
    from e True b0 c1 c2 c3 l show ?thesis
      by (cases "sys_write w1 (fd fps1) (take (unat (frame_size frame)) buf3)")
         (auto simp: write_copy_def Let_def)
  qed
qed

lemma write_frame_data_returns:
  assumes "frame_ok frame"
    and "\<forall>b. frame_buf fps = Some b \<longrightarrow> length b = unat (frame_buf_size fps)"
  shows "\<exists>res. write_frame_data w fps frame = Some res"
  using write_direct_returns [OF assms(1)] write_copy_returns [OF assms]
  by (auto simp: write_frame_data_def)

lemma push_returns:
  assumes "frame_ok frame" and "frame_buf_inv fps"
  shows "\<exists>res. sc_frame_pipe_sink_push av w fps frame = Some res"
proof (cases "sint (fd fps) < 0 \<or> stopped fps")
  case True
  then show ?thesis by (auto simp: push_rejected)
next
  case False
  let ?hdr = "if AVFrame.width frame \<noteq> width fps \<or> AVFrame.height frame \<noteq> height fps
        then write_header w fps (AVFrame.width frame) (AVFrame.height frame)
        else (w, fps, True)"
  obtain w1 fps1 hok where h: "?hdr = (w1, fps1, hok)" by (cases ?hdr)
  obtain w2 pok where p: "write_pts w1 fps1 (frame_pts_us av (time_base fps1) frame) = (w2, pok)"
    by (cases "write_pts w1 fps1 (frame_pts_us av (time_base fps1) frame)")
  from h have "frame_buf fps1 = frame_buf fps" "frame_buf_size fps1 = frame_buf_size fps"
    by (auto simp: write_header_def Let_def split: if_splits prod.splits)
  with assms(2) have "\<forall>b. frame_buf fps1 = Some b \<longrightarrow> length b = unat (frame_buf_size fps1)"
    by (auto simp: frame_buf_inv_def split: option.splits)
  from write_frame_data_returns [OF assms(1) this, of w2] obtain w3 fps3 dok where
    d: "write_frame_data w2 fps1 frame = Some (w3, fps3, dok)"
    by auto
  from False h p d show ?thesis
    by (auto simp: sc_frame_pipe_sink_push_def Let_def)
qed

lemma push_all_returns:
  assumes "list_all frame_ok frames" and "frame_buf_inv fps"
  shows "\<exists>res. push_all av w fps frames = Some res"
  using assms
proof (induction frames arbitrary: w fps)
  case Nil
  then show ?case by simp
next
  case (Cons f frames)
  from Cons.prems have f: "frame_ok f" and fs: "list_all frame_ok frames" by simp_all
  from push_returns [OF f Cons.prems(2), of av w] obtain w1 fps1 r where
    p: "sc_frame_pipe_sink_push av w fps f = Some (w1, fps1, r)"
    by auto
  from push_capacity [OF p Cons.prems(2)] have "frame_buf_inv fps1" by simp
  from Cons.IH [OF fs this, of w1] obtain w2 fps2 rs where
    "push_all av w1 fps1 frames = Some (w2, fps2, rs)"
    by auto
  with p show ?case by simp
qed

end
